theory Spec2Isabelle
  imports Complex_Main "HOL-Library.AList" "HOL-Library.Multiset" "HOL-Library.Log_Nat"
begin

section \<open>Smart Interview Bot: scoring engine and session state machine\<close>

text \<open>
  A shallow embedding of \<^verbatim>\<open>interview.py\<close>. Python strings are modelled as
  \<^typ>\<open>string\<close> restricted to ASCII text, Python's unbounded non-negative counters as
  \<^typ>\<open>nat\<close>, lists as HOL lists, and the insertion-ordered dictionary of the summary
  as an association list. A Python float is an IEEE 754 binary64 number, modelled by
  its exact rational value or an infinity; every float operation of the source rounds
  its exact result to the nearest binary64 number, ties to even. Every list access or
  division that Python would reject with an exception is a branch of the model
  returning that exception as a value.
\<close>

subsection \<open>Strings: \<^verbatim>\<open>str.lower\<close>, \<^verbatim>\<open>str.strip\<close>, \<^verbatim>\<open>in\<close>, \<^verbatim>\<open>str.join\<close>\<close>

definition char_lower :: "char \<Rightarrow> char" where
  "char_lower c =
     (let n = (of_char c :: nat) in if 65 \<le> n \<and> n \<le> 90 then char_of (n + 32) else c)"

definition lower :: "string \<Rightarrow> string" where
  "lower s = map char_lower s"

definition is_space :: "char \<Rightarrow> bool" where
  "is_space c =
     (let n = (of_char c :: nat) in (9 \<le> n \<and> n \<le> 13) \<or> (28 \<le> n \<and> n \<le> 32))"

definition strip :: "string \<Rightarrow> string" where
  "strip s = rev (dropWhile is_space (rev (dropWhile is_space s)))"

fun starts_with :: "string \<Rightarrow> string \<Rightarrow> bool" where
  "starts_with [] hay = True"
| "starts_with (c # cs) [] = False"
| "starts_with (c # cs) (h # hs) = (c = h \<and> starts_with cs hs)"

text \<open>\<^verbatim>\<open>needle in hay\<close> on strings: the needle occurs at some offset of the haystack.\<close>

fun str_contains :: "string \<Rightarrow> string \<Rightarrow> bool" where
  "str_contains needle [] = (needle = [])"
| "str_contains needle (h # hs) = (starts_with needle (h # hs) \<or> str_contains needle hs)"

fun join :: "string \<Rightarrow> string list \<Rightarrow> string" where
  "join sep [] = []"
| "join sep [x] = x"
| "join sep (x # y # ys) = x @ sep @ join sep (y # ys)"

subsection \<open>Question bank\<close>

record question =
  q :: string
  "keywords" :: "string list"

definition TECHNICAL_QUESTIONS :: "question list" where
  "TECHNICAL_QUESTIONS =
    [\<lparr>q = ''What is the difference between list and tuple in Python?'',
      keywords = [''mutable'', ''immutable'']\<rparr>,
     \<lparr>q = ''Explain the concept of inheritance in OOP.'',
      keywords = [''inheritance'', ''base class'', ''derived'', ''subclass'']\<rparr>,
     \<lparr>q = ''What is the time complexity of binary search?'',
      keywords = [''log'', ''logarithmic'', ''O(log n)'']\<rparr>]"

definition HR_QUESTIONS :: "question list" where
  "HR_QUESTIONS =
    [\<lparr>q = ''Tell me about yourself.'',
      keywords = [''student'', ''experience'', ''project'', ''goal'']\<rparr>,
     \<lparr>q = ''What are your strengths and weaknesses?'',
      keywords = [''strength'', ''weakness'', ''learning'']\<rparr>,
     \<lparr>q = ''Where do you see yourself in 5 years?'',
      keywords = [''future'', ''goal'', ''career'']\<rparr>]"

definition NUM_TECH :: nat where
  "NUM_TECH = 3"

definition NUM_HR :: nat where
  "NUM_HR = 2"

subsection \<open>\<^verbatim>\<open>evaluate_answer\<close>\<close>

text \<open>
  The three feedback messages of \<^verbatim>\<open>evaluate_answer\<close>, in the order of its
  \<^verbatim>\<open>if\<close>/\<^verbatim>\<open>elif\<close>/\<^verbatim>\<open>else\<close>: "Needs improvement ..." (the spec's tier None),
  "Good ..." (Partial) and "Excellent ..." (Full).
\<close>

datatype feedback = NeedsImprovement | Good | Excellent

text \<open>The \<^verbatim>\<open>for kw in keywords\<close> loop, carrying \<^verbatim>\<open>matched\<close> and \<^verbatim>\<open>matched_words\<close>.\<close>

fun match_loop :: "string \<Rightarrow> string list \<Rightarrow> nat \<times> string list \<Rightarrow> nat \<times> string list" where
  "match_loop ans [] (matched, matched_words) = (matched, matched_words)"
| "match_loop ans (kw # kws) (matched, matched_words) =
     (if str_contains (lower kw) ans
      then match_loop ans kws (matched + 1, matched_words @ [kw])
      else match_loop ans kws (matched, matched_words))"

definition evaluate_answer :: "string \<Rightarrow> string list \<Rightarrow> nat \<times> feedback \<times> string list" where
  "evaluate_answer answer kws =
     (let ans = lower answer;
          (matched, matched_words) = match_loop ans kws (0, []);
          fb = (if matched = 0 then NeedsImprovement
                else if matched < length kws then Good
                else Excellent)
      in (matched, fb, matched_words))"

subsection \<open>Sampling and interleaving: \<^verbatim>\<open>_prepare_questions\<close>\<close>

datatype py_error = IndexError | ZeroDivisionError | ValueError | OverflowError

text \<open>
  \<^verbatim>\<open>random.sample(population, k)\<close> is Python's library function: selection without
  replacement. Its randomness is the explicit argument \<open>rnd\<close>, the sequence of raw
  draws: draw \<open>i\<close> picks position \<open>rnd i mod n\<close> of the \<open>n\<close> items still in the pool
  and removes it. The library raises \<^verbatim>\<open>ValueError\<close> when \<open>k\<close> exceeds the population.
\<close>

fun sample_pool :: "'a list \<Rightarrow> nat \<Rightarrow> (nat \<Rightarrow> nat) \<Rightarrow> nat \<Rightarrow> 'a list" where
  "sample_pool pool 0 rnd i = []"
| "sample_pool pool (Suc k) rnd i =
     (if pool = [] then []
      else let j = rnd i mod length pool
           in pool ! j # sample_pool (take j pool @ drop (Suc j) pool) k rnd (Suc i))"

definition random_sample :: "'a list \<Rightarrow> nat \<Rightarrow> (nat \<Rightarrow> nat) \<Rightarrow> py_error + 'a list" where
  "random_sample population k rnd =
     (if length population < k then Inl ValueError else Inr (sample_pool population k rnd 0))"

text \<open>\<^verbatim>\<open>random.sample(CATALOG, min(NUM, len(CATALOG)))\<close>, as both lines 188 and 189 call it.\<close>

definition sample_category :: "question list \<Rightarrow> nat \<Rightarrow> (nat \<Rightarrow> nat) \<Rightarrow> py_error + question list" where
  "sample_category catalog num rnd = random_sample catalog (min num (length catalog)) rnd"

text \<open>One round of the loop \<^verbatim>\<open>for i in range(max(len(tech_sample), len(hr_sample)))\<close>.\<close>

definition combine_step ::
  "question list \<Rightarrow> question list \<Rightarrow> (string \<times> question) list \<Rightarrow> nat \<Rightarrow> (string \<times> question) list" where
  "combine_step tech_sample hr_sample combined i =
     (let c1 = (if i < length tech_sample then combined @ [(''Technical'', tech_sample ! i)]
                else combined)
      in if i < length hr_sample then c1 @ [(''HR'', hr_sample ! i)] else c1)"

definition interleave :: "question list \<Rightarrow> question list \<Rightarrow> (string \<times> question) list" where
  "interleave tech_sample hr_sample =
     foldl (combine_step tech_sample hr_sample) []
       [0 ..< max (length tech_sample) (length hr_sample)]"

text \<open>
  \<^verbatim>\<open>_prepare_questions\<close>, with the two catalogs and the two counts (the module's
  constants) as arguments and one source of draws for each call of \<^verbatim>\<open>random.sample\<close>.
\<close>

definition prepare_questions ::
  "question list \<Rightarrow> question list \<Rightarrow> nat \<Rightarrow> nat \<Rightarrow> (nat \<Rightarrow> nat) \<Rightarrow> (nat \<Rightarrow> nat)
     \<Rightarrow> py_error + (string \<times> question) list" where
  "prepare_questions tech hr num_tech num_hr rnd_t rnd_h =
     (case sample_category tech num_tech rnd_t of
        Inl e \<Rightarrow> Inl e
      | Inr tech_sample \<Rightarrow>
          (case sample_category hr num_hr rnd_h of
             Inl e \<Rightarrow> Inl e
           | Inr hr_sample \<Rightarrow> Inr (interleave tech_sample hr_sample)))"

text \<open>
  The interleaving rule in the spec's words: technical first on each round, then the
  rest of whichever sample is longer.
\<close>

fun round_robin :: "question list \<Rightarrow> question list \<Rightarrow> (string \<times> question) list" where
  "round_robin [] hs = map (Pair ''HR'') hs"
| "round_robin (t # ts) [] = map (Pair ''Technical'') (t # ts)"
| "round_robin (t # ts) (h # hs) = (''Technical'', t) # (''HR'', h) # round_robin ts hs"

subsection \<open>Python floats: \<^verbatim>\<open>int / int\<close> and \<^verbatim>\<open>float * int\<close>\<close>

text \<open>Rounding a rational to the nearest integer, a tie to the even neighbour.\<close>

definition round_half_even :: "rat \<Rightarrow> int" where
  "round_half_even x =
     (let f = \<lfloor>x\<rfloor>; d = x - of_int f
      in if d < 1 / 2 then f else if 1 / 2 < d then f + 1 else if even f then f else f + 1)"

text \<open>For \<open>x > 0\<close>, the binary exponent of \<open>x\<close>: the \<open>e\<close> with \<open>2\<^sup>e \<le> x < 2\<^sup>e\<^sup>+\<^sup>1\<close>.\<close>

definition float_exponent :: "rat \<Rightarrow> int" where
  "float_exponent x =
     (let (p, q) = quotient_of x;
          d = bitlen p - bitlen q
      in if 2 powi d \<le> x then d else d - 1)"

text \<open>
  The spacing of the binary64 numbers around \<open>x > 0\<close>: 53 significant bits, and
  the fixed spacing \<open>2\<^sup>-\<^sup>1\<^sup>0\<^sup>7\<^sup>4\<close> of the subnormal range below \<open>2\<^sup>-\<^sup>1\<^sup>0\<^sup>2\<^sup>2\<close>.
\<close>

definition float_ulp :: "rat \<Rightarrow> rat" where
  "float_ulp x = 2 powi (max (float_exponent x) (- 1022) - 52)"

text \<open>
  Round to nearest, ties to even, with the exponent unbounded above: a result whose
  exponent exceeds \<open>1023\<close>, that is of magnitude \<open>2\<^sup>1\<^sup>0\<^sup>2\<^sup>4\<close> or more, is what binary64
  cannot hold.
\<close>

definition round_double :: "rat \<Rightarrow> rat" where
  "round_double x =
     (if x = 0 then 0
      else if 0 < x then of_int (round_half_even (x / float_ulp x)) * float_ulp x
      else - (of_int (round_half_even (- x / float_ulp (- x))) * float_ulp (- x)))"

definition float_overflows :: "rat \<Rightarrow> bool" where
  "float_overflows r \<longleftrightarrow> r \<noteq> 0 \<and> 1024 \<le> float_exponent \<bar>r\<bar>"

datatype py_float = Finite rat | PosInf | NegInf

text \<open>
  \<^verbatim>\<open>a / n\<close> on two non-negative Python integers: the correctly rounded float of the
  exact quotient, \<^verbatim>\<open>ZeroDivisionError\<close> for a zero divisor, \<^verbatim>\<open>OverflowError\<close> when the
  quotient is too large for a float.
\<close>

definition int_truediv :: "nat \<Rightarrow> nat \<Rightarrow> py_error + rat" where
  "int_truediv a n =
     (if n = 0 then Inl ZeroDivisionError
      else let r = round_double (of_nat a / of_nat n)
           in if float_overflows r then Inl OverflowError else Inr r)"

text \<open>The product of two finite floats: rounded, an infinity when it overflows.\<close>

definition float_mul :: "rat \<Rightarrow> rat \<Rightarrow> py_float" where
  "float_mul a b =
     (let r = round_double (a * b)
      in if float_overflows r then (if 0 < r then PosInf else NegInf) else Finite r)"

subsection \<open>The application state\<close>

text \<open>
  A \<^verbatim>\<open>QuestionSlide\<close>: its question, its title numbers, what the Text widget returns
  for \<^verbatim>\<open>txt.get("1.0", tk.END)\<close>, and the two label variables. \<open>fb_var\<close> is \<open>None\<close>
  while the label is still the empty string.
\<close>

record question_slide =
  question_data :: question
  slide_index :: nat
  slide_total :: nat
  "txt" :: string
  fb_var :: "feedback option"
  hint_var :: string

definition get_answer :: "question_slide \<Rightarrow> string" where
  "get_answer slide = strip (txt slide)"

record tally =
  score :: nat
  possible :: nat

text \<open>
  What \<^verbatim>\<open>_show_summary\<close> computes before it formats the text: the two totals, the
  per-section dictionary in insertion order, and per question the section, the question,
  the answer shown, the score and the number of keywords.
\<close>

record summary =
  total_score :: nat
  total_keywords :: nat
  section_wise :: "(string \<times> tally) list"
  details :: "(string \<times> string \<times> string \<times> nat \<times> nat) list"

record app =
  questions :: "(string \<times> question) list"
  slides :: "question_slide list"
  current_idx :: nat
  answers :: "string list"
  scores :: "nat list"
  progress_var :: py_float
  btn_prev_enabled :: bool
  btn_next_enabled :: bool
  summary_text :: "summary option"

text \<open>\<^verbatim>\<open>_build_slides\<close>: \<^verbatim>\<open>enumerate(self.questions, start=1)\<close>; an empty Text widget returns a newline.\<close>

fun build_slides_from :: "nat \<Rightarrow> nat \<Rightarrow> (string \<times> question) list \<Rightarrow> question_slide list" where
  "build_slides_from idx tot [] = []"
| "build_slides_from idx tot ((sect, qdata) # qs) =
     \<lparr>question_data = qdata, slide_index = idx, slide_total = tot, txt = [CHR 0x0A],
      fb_var = None, hint_var = []\<rparr> # build_slides_from (Suc idx) tot qs"

definition build_slides :: "(string \<times> question) list \<Rightarrow> question_slide list" where
  "build_slides qs = build_slides_from 1 (length qs) qs"

text \<open>
  \<^verbatim>\<open>_show_slide\<close>. Raising and lowering the frames is not modelled: the frame on top
  is the one \<open>current_idx\<close> names. Line 224 divides two integers, which gives a float
  or raises, and multiplies the float by \<open>100\<close>; the division raises before
  \<open>current_idx\<close> is set.
\<close>

definition show_slide :: "nat \<Rightarrow> app \<Rightarrow> py_error + app" where
  "show_slide idx s =
     (case int_truediv idx (length (slides s)) of
        Inl e \<Rightarrow> Inl e
      | Inr quot \<Rightarrow>
          Inr (s\<lparr>progress_var := float_mul quot 100,
                 btn_prev_enabled := (0 < idx),
                 btn_next_enabled := (idx < length (slides s)),
                 current_idx := idx\<rparr>))"

text \<open>
  \<^verbatim>\<open>evaluate_current\<close>. The early \<^verbatim>\<open>return\<close> of line 235 is the first branch. The
  message box is not modelled.
\<close>

definition evaluate_current :: "app \<Rightarrow> py_error + app" where
  "evaluate_current s =
     (if length (slides s) \<le> current_idx s then Inr s
      else let i = current_idx s;
               slide = slides s ! i;
               ans = get_answer slide
           in if length (answers s) \<le> i then Inl IndexError
              else let (matched, fb, matched_words) =
                         evaluate_answer ans (keywords (question_data slide))
                   in if length (scores s) \<le> i then Inl IndexError
                      else Inr (s\<lparr>answers := (answers s)[i := ans],
                                  scores := (scores s)[i := matched],
                                  slides := (slides s)[i := slide\<lparr>fb_var := Some fb,
                                    hint_var := (if matched_words \<noteq> []
                                                 then ''Matched keywords: '' @ join '', '' matched_words
                                                 else [])\<rparr>]\<rparr>))"

text \<open>\<^verbatim>\<open>section_wise.setdefault(sect, {'score': 0, 'possible': 0})\<close> on an insertion-ordered dict.\<close>

definition setdefault :: "string \<Rightarrow> tally \<Rightarrow> (string \<times> tally) list \<Rightarrow> (string \<times> tally) list" where
  "setdefault k d sw = (case map_of sw k of None \<Rightarrow> AList.update k d sw | Some v \<Rightarrow> sw)"

text \<open>The body of the loop of lines 268 to 271 for one question with its score.\<close>

definition tally_step :: "string \<Rightarrow> nat \<Rightarrow> nat \<Rightarrow> (string \<times> tally) list \<Rightarrow> (string \<times> tally) list" where
  "tally_step sect sc poss sw =
     AList.map_entry sect (\<lambda>v. v\<lparr>possible := possible v + poss\<rparr>)
       (AList.map_entry sect (\<lambda>v. v\<lparr>score := score v + sc\<rparr>)
          (setdefault sect \<lparr>score = 0, possible = 0\<rparr> sw))"

fun section_loop ::
  "nat \<Rightarrow> (string \<times> question) list \<Rightarrow> nat list \<Rightarrow> (string \<times> tally) list
     \<Rightarrow> py_error + (string \<times> tally) list" where
  "section_loop i [] scs sw = Inr sw"
| "section_loop i ((sect, qdata) # qs) scs sw =
     (if i < length scs
      then section_loop (Suc i) qs scs (tally_step sect (scs ! i) (length (keywords qdata)) sw)
      else Inl IndexError)"

fun detail_loop ::
  "nat \<Rightarrow> (string \<times> question) list \<Rightarrow> string list \<Rightarrow> nat list
     \<Rightarrow> py_error + (string \<times> string \<times> string \<times> nat \<times> nat) list" where
  "detail_loop i [] anss scs = Inr []"
| "detail_loop i ((sect, qdata) # qs) anss scs =
     (if length anss \<le> i then Inl IndexError
      else if length scs \<le> i then Inl IndexError
      else let ans = (if strip (anss ! i) = [] then ''(No answer)'' else strip (anss ! i))
           in case detail_loop (Suc i) qs anss scs of
                Inl e \<Rightarrow> Inl e
              | Inr rest \<Rightarrow> Inr ((sect, q qdata, ans, scs ! i, length (keywords qdata)) # rest))"

text \<open>The computation of \<^verbatim>\<open>_show_summary\<close>, lines 265 to 286.\<close>

definition build_report :: "app \<Rightarrow> py_error + summary" where
  "build_report s =
     (let tk = sum_list (map (\<lambda>qq. length (keywords (snd qq))) (questions s));
          ts = sum_list (scores s)
      in case section_loop 0 (questions s) (scores s) [] of
           Inl e \<Rightarrow> Inl e
         | Inr sw \<Rightarrow>
             (case detail_loop 0 (questions s) (answers s) (scores s) of
                Inl e \<Rightarrow> Inl e
              | Inr ds \<Rightarrow>
                  Inr \<lparr>total_score = ts, total_keywords = tk, section_wise = sw, details = ds\<rparr>))"

definition show_summary :: "app \<Rightarrow> py_error + app" where
  "show_summary s =
     (case build_report s of
        Inl e \<Rightarrow> Inl e
      | Inr r \<Rightarrow> show_slide (length (slides s)) (s\<lparr>summary_text := Some r\<rparr>))"

definition next_slide :: "app \<Rightarrow> py_error + app" where
  "next_slide s =
     (case evaluate_current s of
        Inl e \<Rightarrow> Inl e
      | Inr s1 \<Rightarrow>
          if int (current_idx s1) < int (length (slides s1)) - 1
          then show_slide (current_idx s1 + 1) s1
          else show_summary s1)"

definition prev_slide :: "app \<Rightarrow> py_error + app" where
  "prev_slide s = (if 0 < current_idx s then show_slide (current_idx s - 1) s else Inr s)"

text \<open>\<^verbatim>\<open>SmartInterviewApp.__init__\<close> from line 160 on, given the prepared question list.\<close>

definition init_app :: "(string \<times> question) list \<Rightarrow> py_error + app" where
  "init_app qs =
     show_slide 0
       \<lparr>questions = qs, slides = build_slides qs, current_idx = 0,
        answers = replicate (length qs) [], scores = replicate (length qs) 0,
        progress_var = Finite 0, btn_prev_enabled = True, btn_next_enabled = True,
        summary_text = None\<rparr>"

definition new_app ::
  "question list \<Rightarrow> question list \<Rightarrow> nat \<Rightarrow> nat \<Rightarrow> (nat \<Rightarrow> nat) \<Rightarrow> (nat \<Rightarrow> nat) \<Rightarrow> py_error + app" where
  "new_app tech hr num_tech num_hr rnd_t rnd_h =
     (case prepare_questions tech hr num_tech num_hr rnd_t rnd_h of
        Inl e \<Rightarrow> Inl e
      | Inr qs \<Rightarrow> init_app qs)"

text \<open>
  The user's edit of the answer box of the slide on top: afterwards the widget
  returns \<open>t\<close>. It is the environment's step, not a function of the source.
\<close>

definition type_answer :: "string \<Rightarrow> app \<Rightarrow> app" where
  "type_answer t s =
     (if current_idx s < length (slides s)
      then s\<lparr>slides := (slides s)[current_idx s := (slides s ! current_idx s)\<lparr>txt := t\<rparr>]\<rparr>
      else s)"

text \<open>
  The states a run of the application passes through: construction, then any sequence
  of edits and button commands that return normally.
\<close>

inductive reachable :: "app \<Rightarrow> bool" where
  r_init: "new_app tech hr num_tech num_hr rnd_t rnd_h = Inr s \<Longrightarrow> reachable s"
| r_type: "reachable s \<Longrightarrow> reachable (type_answer t s)"
| r_eval: "reachable s \<Longrightarrow> evaluate_current s = Inr s' \<Longrightarrow> reachable s'"
| r_next: "reachable s \<Longrightarrow> next_slide s = Inr s' \<Longrightarrow> reachable s'"
| r_prev: "reachable s \<Longrightarrow> prev_slide s = Inr s' \<Longrightarrow> reachable s'"

text \<open>The invariant of the session: the three parallel lists, the index, a non-empty deck.\<close>

definition session_inv :: "app \<Rightarrow> bool" where
  "session_inv s \<longleftrightarrow>
     length (slides s) = length (questions s) \<and>
     length (answers s) = length (questions s) \<and>
     length (scores s) = length (questions s) \<and>
     map question_data (slides s) = map snd (questions s) \<and>
     current_idx s \<le> length (questions s) \<and>
     0 < length (questions s) \<and>
     progress_var s =
       float_mul (round_double (of_nat (current_idx s) / of_nat (length (slides s)))) 100 \<and>
     btn_prev_enabled s = (0 < current_idx s) \<and>
     btn_next_enabled s = (current_idx s < length (slides s))"

text \<open>\<^verbatim>\<open>next_slide\<close> called \<open>k\<close> times in a row.\<close>

fun next_times :: "nat \<Rightarrow> app \<Rightarrow> py_error + app" where
  "next_times 0 s = Inr s"
| "next_times (Suc k) s = (case next_slide s of Inl e \<Rightarrow> Inl e | Inr s' \<Rightarrow> next_times k s')"

text \<open>The per-section sums that the summary's dictionary should hold for a section.\<close>

definition section_tally :: "string \<Rightarrow> (string \<times> question) list \<Rightarrow> nat list \<Rightarrow> tally" where
  "section_tally c qs scs =
     \<lparr>score = sum_list (map snd (filter (\<lambda>p. fst (fst p) = c) (zip qs scs))),
      possible = sum_list (map (\<lambda>p. length (keywords (snd p))) (filter (\<lambda>p. fst p = c) qs))\<rparr>"

text \<open>Categories in the order of their first occurrence.\<close>

fun first_seen :: "string list \<Rightarrow> string list" where
  "first_seen [] = []"
| "first_seen (c # cs) = c # filter (\<lambda>d. d \<noteq> c) (first_seen cs)"

subsection \<open>A small session used to exercise the theorems\<close>

definition first_draw :: "nat \<Rightarrow> nat" where
  "first_draw i = 0"

definition demo_tech :: "question list" where
  "demo_tech = [\<lparr>q = ''T1'', keywords = [''mutable'', ''immutable'']\<rparr>]"

definition demo_hr :: "question list" where
  "demo_hr = [\<lparr>q = ''H1'', keywords = [''student'', ''project'', ''goal'']\<rparr>]"

definition demo_start :: app where
  "demo_start = projr (new_app demo_tech demo_hr 1 1 first_draw first_draw)"

definition demo_second :: app where
  "demo_second = projr (next_slide (type_answer ''Lists are Mutable'' demo_start))"

definition demo_summary :: app where
  "demo_summary = projr (next_slide demo_second)"

definition demo_tech3 :: "question list" where
  "demo_tech3 = [\<lparr>q = ''T1'', keywords = [''mutable'']\<rparr>, \<lparr>q = ''T2'', keywords = [''log'']\<rparr>]"

definition demo3_start :: app where
  "demo3_start = projr (new_app demo_tech3 demo_hr 2 1 first_draw first_draw)"

definition demo_evaluated :: app where
  "demo_evaluated = projr (evaluate_current demo_second)"

definition demo_back :: app where
  "demo_back = projr (prev_slide demo_summary)"

text \<open>The bounds of the session state: the index within \<open>[0, N]\<close>, one answer and one score per question.\<close>

definition in_bounds :: "app \<Rightarrow> bool" where
  "in_bounds s \<longleftrightarrow>
     current_idx s \<le> length (questions s) \<and>
     length (answers s) = length (questions s) \<and>
     length (scores s) = length (questions s)"

subsection \<open>Facts about the string helpers\<close>

lemma starts_with_iff: "starts_with n h \<longleftrightarrow> (\<exists>ss. h = n @ ss)"
  by (induction n h rule: starts_with.induct) auto

lemma str_contains_iff: "str_contains n h \<longleftrightarrow> (\<exists>ps ss. h = ps @ n @ ss)"
proof (induction h)
  case Nil
  then show ?case by auto
next
  case (Cons a h)
  show ?case
  proof
    assume "str_contains n (a # h)"
    then consider "starts_with n (a # h)" | "str_contains n h" by auto
    then show "\<exists>ps ss. a # h = ps @ n @ ss"
    proof cases
      case 1
      then obtain ss where "a # h = n @ ss" by (auto simp: starts_with_iff)
      then have "a # h = [] @ n @ ss" by simp
      then show ?thesis by blast
    next
      case 2
      with Cons obtain ps ss where "h = ps @ n @ ss" by auto
      then have "a # h = (a # ps) @ n @ ss" by simp
      then show ?thesis by blast
    qed
  next
    assume "\<exists>ps ss. a # h = ps @ n @ ss"
    then obtain ps ss where eq: "a # h = ps @ n @ ss" by blast
    show "str_contains n (a # h)"
    proof (cases ps)
      case Nil
      with eq have "starts_with n (a # h)" by (auto simp: starts_with_iff)
      then show ?thesis by simp
    next
      case (Cons b ps')
      with eq have "h = ps' @ n @ ss" by simp
      with Cons.IH have "str_contains n h" by blast
      then show ?thesis by simp
    qed
  qed
qed

lemma match_loop_filter:
  "match_loop ans kws (m, mw) =
     (m + length (filter (\<lambda>k. str_contains (lower k) ans) kws),
      mw @ filter (\<lambda>k. str_contains (lower k) ans) kws)"
  by (induction kws arbitrary: m mw) auto

lemma evaluate_answer_eq:
  "evaluate_answer answer kws =
     (let mw = filter (\<lambda>k. str_contains (lower k) (lower answer)) kws;
          m = length mw
      in (m, (if m = 0 then NeedsImprovement else if m < length kws then Good else Excellent), mw))"
  by (simp add: evaluate_answer_def match_loop_filter Let_def)


text \<open>The two examples of the specification's test list.\<close>

lemma evaluate_answer_example_full:
  "evaluate_answer ''Lists are mutable, tuples are immutable.'' [''mutable'', ''immutable'']
     = (2, Excellent, [''mutable'', ''immutable''])"
  by code_simp

lemma evaluate_answer_example_none:
  "evaluate_answer ''It's about classes.''
     [''inheritance'', ''base class'', ''derived'', ''subclass''] = (0, NeedsImprovement, [])"
  by code_simp

subsection \<open>Scoring: match count and matched keywords\<close>

text \<open>
  Claim C1. For every answer text \<open>A\<close> and keyword list \<open>K\<close>, the match count of
  \<open>evaluate_answer A K\<close> is the number of entries of \<open>K\<close> whose lowercased form occurs
  as a substring of the lowercased answer (each occurrence in the list counted, no
  deduplication), the matched keywords are exactly those entries in the order of \<open>K\<close>,
  and the match count is at most the length of \<open>K\<close>.
\<close>

theorem evaluate_answer_match_count:
  "fst (evaluate_answer A K) =
     length (filter (\<lambda>k. \<exists>ps ss. lower A = ps @ lower k @ ss) K) \<and>
   snd (snd (evaluate_answer A K)) = filter (\<lambda>k. \<exists>ps ss. lower A = ps @ lower k @ ss) K \<and>
   0 \<le> fst (evaluate_answer A K) \<and> fst (evaluate_answer A K) \<le> length K"
  by (simp add: evaluate_answer_eq Let_def str_contains_iff)

subsection \<open>Scoring: the feedback tier\<close>

text \<open>
  Claim C2. For every answer text and keyword list the feedback follows the ordered
  chain of the source: the lowest tier (None) exactly when the match count is \<open>0\<close>;
  otherwise the highest tier (Full) exactly when the match count equals the number of
  keywords; otherwise the middle tier (Partial), which is exactly when the match count
  is positive and below the number of keywords.
\<close>

theorem evaluate_answer_feedback_tier:
  "fst (snd (evaluate_answer A K)) =
     (if fst (evaluate_answer A K) = 0 then NeedsImprovement
      else if fst (evaluate_answer A K) = length K then Excellent
      else Good) \<and>
   (fst (snd (evaluate_answer A K)) = NeedsImprovement \<longleftrightarrow> fst (evaluate_answer A K) = 0) \<and>
   (fst (snd (evaluate_answer A K)) = Excellent \<longleftrightarrow>
      0 < fst (evaluate_answer A K) \<and> fst (evaluate_answer A K) = length K) \<and>
   (fst (snd (evaluate_answer A K)) = Good \<longleftrightarrow>
      0 < fst (evaluate_answer A K) \<and> fst (evaluate_answer A K) < length K)"
proof -
  define m where "m = length (filter (\<lambda>k. str_contains (lower k) (lower A)) K)"
  have le: "m \<le> length K" unfolding m_def by (rule length_filter_le)
  have m: "fst (evaluate_answer A K) = m"
    by (simp add: evaluate_answer_eq Let_def m_def)
  have fb: "fst (snd (evaluate_answer A K)) =
              (if m = 0 then NeedsImprovement else if m < length K then Good else Excellent)"
    by (simp add: evaluate_answer_eq Let_def m_def)
  show ?thesis
    unfolding m fb using le by auto
qed

theorem evaluate_answer_feedback_tier_witness:
  "fst (evaluate_answer ''Lists are Mutable'' [''mutable'', ''immutable'']) = 1 \<and>
   fst (snd (evaluate_answer ''Lists are Mutable'' [''mutable'', ''immutable''])) = Good"
proof -
  have m: "fst (evaluate_answer ''Lists are Mutable'' [''mutable'', ''immutable'']) = 1"
    by code_simp
  show ?thesis
    using evaluate_answer_feedback_tier [of "''Lists are Mutable''" "[''mutable'', ''immutable'']"]
    unfolding m by simp
qed

subsection \<open>Sampling\<close>

lemma sample_pool_length: "length (sample_pool pool k rnd i) = min k (length pool)"
proof (induction k arbitrary: pool i)
  case 0
  then show ?case by simp
next
  case (Suc k)
  show ?case
  proof (cases "pool = []")
    case True
    then show ?thesis by simp
  next
    case False
    define j where "j = rnd i mod length pool"
    have j: "j < length pool" using False by (simp add: j_def)
    have len: "length (take j pool @ drop (Suc j) pool) = length pool - 1"
      using j by simp
    have "length (sample_pool (take j pool @ drop (Suc j) pool) k rnd (Suc i)) =
            min k (length pool - 1)"
      using Suc.IH [of "take j pool @ drop (Suc j) pool" "Suc i"] len by simp
    moreover have "Suc (min k (length pool - 1)) = min (Suc k) (length pool)"
      using False by (cases pool) simp_all
    ultimately show ?thesis using False by (simp add: Let_def j_def [symmetric])
  qed
qed

lemma sample_pool_mset: "mset (sample_pool pool k rnd i) \<subseteq># mset pool"
proof (induction k arbitrary: pool i)
  case 0
  then show ?case by simp
next
  case (Suc k)
  show ?case
  proof (cases "pool = []")
    case True
    then show ?thesis by simp
  next
    case False
    define j where "j = rnd i mod length pool"
    have j: "j < length pool" using False by (simp add: j_def)
    have "mset pool = mset (take j pool @ pool ! j # drop (Suc j) pool)"
      using id_take_nth_drop [OF j] by simp
    then have split: "mset pool = add_mset (pool ! j) (mset (take j pool @ drop (Suc j) pool))"
      by simp
    have "mset (sample_pool (take j pool @ drop (Suc j) pool) k rnd (Suc i))
            \<subseteq># mset (take j pool @ drop (Suc j) pool)"
      by (rule Suc.IH)
    then have "add_mset (pool ! j) (mset (sample_pool (take j pool @ drop (Suc j) pool) k rnd (Suc i)))
            \<subseteq># mset pool"
      unfolding split by simp
    then show ?thesis using False by (simp add: Let_def j_def [symmetric])
  qed
qed

lemma sample_category_ok:
  "sample_category catalog num rnd = Inr (sample_pool catalog (min num (length catalog)) rnd 0)"
  by (simp add: sample_category_def random_sample_def)

lemma count_le1_distinct: "(\<And>a. count (mset xs) a \<le> 1) \<Longrightarrow> distinct xs"
proof (induction xs)
  case Nil
  then show ?case by simp
next
  case (Cons x xs)
  have "count (mset xs) a \<le> 1" for a
  proof -
    have "count (mset xs) a \<le> count (mset (x # xs)) a" by simp
    also have "\<dots> \<le> 1" by (rule Cons.prems)
    finally show ?thesis .
  qed
  then have "distinct xs" by (rule Cons.IH)
  moreover have "count (mset xs) x = 0"
    using Cons.prems [of x] by simp
  then have "x \<notin> set xs" by (simp add: count_eq_zero_iff)
  ultimately show ?case by simp
qed

lemma mset_sub_distinct:
  assumes "mset xs \<subseteq># mset ys" "distinct ys" shows "distinct xs"
proof (rule count_le1_distinct)
  fix a
  have "count (mset xs) a \<le> count (mset ys) a"
    using assms(1) by (rule mset_subset_eq_count)
  also have "\<dots> \<le> 1" using assms(2) by (simp add: distinct_count_atmost_1)
  finally show "count (mset xs) a \<le> 1" .
qed

lemma mset_sub_set: "mset xs \<subseteq># mset ys \<Longrightarrow> set xs \<subseteq> set ys"
  using set_mset_mono by fastforce

lemma mset_sub_full:
  assumes "mset xs \<subseteq># mset ys" "length xs = length ys" shows "mset xs = mset ys"
proof (rule ccontr)
  assume "mset xs \<noteq> mset ys"
  with assms(1) have "mset xs \<subset># mset ys" by (simp add: subset_mset.less_le)
  then have "size (mset xs) < size (mset ys)" by (rule mset_subset_size)
  with assms(2) show False by simp
qed

text \<open>
  Claim C6 as stated fails: asked for four questions of a catalog of three, the sampling
  of \<^verbatim>\<open>_prepare_questions\<close> returns the three and reports no failure.
\<close>

theorem sample_category_over_catalog_no_failure:
  "length TECHNICAL_QUESTIONS < 4 \<and>
   sample_category TECHNICAL_QUESTIONS 4 first_draw = Inr TECHNICAL_QUESTIONS"
  by code_simp

text \<open>
  Claim C6, amended. Sampling \<open>num\<close> questions from a catalog never fails: it returns
  \<open>min num (length catalog)\<close> questions drawn without replacement (every catalog entry is
  used at most as often as it occurs in the catalog, so the questions are distinct when
  the catalog's are), and when \<open>num\<close> reaches or exceeds the catalog size the result is
  the whole catalog in some order.
\<close>

theorem sample_category_clamps:
  "\<exists>xs. sample_category catalog num rnd = Inr xs \<and>
         length xs = min num (length catalog) \<and>
         mset xs \<subseteq># mset catalog \<and>
         set xs \<subseteq> set catalog \<and>
         (distinct catalog \<longrightarrow> distinct xs) \<and>
         (length catalog \<le> num \<longrightarrow> mset xs = mset catalog)"
proof -
  let ?xs = "sample_pool catalog (min num (length catalog)) rnd 0"
  have len: "length ?xs = min num (length catalog)"
    by (simp add: sample_pool_length)
  have sub: "mset ?xs \<subseteq># mset catalog" by (rule sample_pool_mset)
  have full: "mset ?xs = mset catalog" if "length catalog \<le> num"
    using sub len that by (intro mset_sub_full) simp_all
  show ?thesis
    using len sub full mset_sub_set [OF sub] mset_sub_distinct [OF sub]
    by (intro exI [of _ ?xs]) (simp add: sample_category_ok)
qed

theorem sample_category_clamps_witness:
  "distinct HR_QUESTIONS \<and> length HR_QUESTIONS \<le> 5 \<and>
   (\<exists>xs. sample_category HR_QUESTIONS 5 first_draw = Inr xs \<and> length xs = 3 \<and>
          distinct xs \<and> mset xs = mset HR_QUESTIONS)"
proof -
  have d: "distinct HR_QUESTIONS" by code_simp
  have l: "length HR_QUESTIONS = 3" by code_simp
  show ?thesis
    using sample_category_clamps [of HR_QUESTIONS 5 first_draw] d l by auto
qed

subsection \<open>Interleaving\<close>

lemma round_robin_Nil2: "round_robin ts [] = map (Pair ''Technical'') ts"
  by (cases ts) simp_all

lemma foldl_combine_step:
  "n = max (length ts) (length hs) \<Longrightarrow>
   foldl (combine_step ts hs) acc [i ..< n] = acc @ round_robin (drop i ts) (drop i hs)"
proof (induction "n - i" arbitrary: i acc)
  case 0
  then show ?case by simp
next
  case (Suc d)
  then have lt: "i < n" by simp
  have IH: "foldl (combine_step ts hs) (combine_step ts hs acc i) [Suc i ..< n] =
              combine_step ts hs acc i @ round_robin (drop (Suc i) ts) (drop (Suc i) hs)"
    using Suc.hyps Suc.prems by (intro Suc.hyps(1)) simp_all
  have step: "combine_step ts hs acc i @ round_robin (drop (Suc i) ts) (drop (Suc i) hs) =
              acc @ round_robin (drop i ts) (drop i hs)"
  proof (cases "i < length ts")
    case True
    note t = Cons_nth_drop_Suc [OF True, symmetric]
    show ?thesis
    proof (cases "i < length hs")
      case True
      note h = Cons_nth_drop_Suc [OF True, symmetric]
      show ?thesis using \<open>i < length ts\<close> True
        by (simp add: combine_step_def t h)
    next
      case False
      then show ?thesis using True
        by (simp add: combine_step_def t round_robin_Nil2)
    qed
  next
    case False
    with lt Suc.prems have hl: "i < length hs" by simp
    note h = Cons_nth_drop_Suc [OF hl, symmetric]
    show ?thesis using False hl by (simp add: combine_step_def h)
  qed
  show ?case using lt IH step by (simp add: upt_conv_Cons)
qed

lemma interleave_round_robin: "interleave ts hs = round_robin ts hs"
  using foldl_combine_step [of "max (length ts) (length hs)" ts hs "[]" 0]
  by (simp add: interleave_def)

subsection \<open>Rounding to binary64\<close>

lemma round_half_even_of_int: "round_half_even (of_int k) = k"
  by (simp add: round_half_even_def)

lemma round_half_even_bounds: "\<lfloor>x\<rfloor> \<le> round_half_even x \<and> round_half_even x \<le> \<lfloor>x\<rfloor> + 1"
  by (simp add: round_half_even_def Let_def)

lemma round_half_even_mono:
  assumes "x \<le> y" shows "round_half_even x \<le> round_half_even y"
proof (cases "\<lfloor>x\<rfloor> = \<lfloor>y\<rfloor>")
  case True
  have "x - of_int \<lfloor>y\<rfloor> \<le> y - of_int \<lfloor>y\<rfloor>" using assms by simp
  then show ?thesis using True by (simp add: round_half_even_def Let_def)
next
  case False
  have "\<lfloor>x\<rfloor> \<le> \<lfloor>y\<rfloor>" using assms by (rule floor_mono)
  with False have "\<lfloor>x\<rfloor> + 1 \<le> \<lfloor>y\<rfloor>" by simp
  then show ?thesis
    using round_half_even_bounds [of x] round_half_even_bounds [of y] by linarith
qed

lemma two_powi_pos: "(0::rat) < 2 powi n"
  by (simp add: zero_less_power_int)

lemma two_powi_mono: "m \<le> n \<Longrightarrow> (2::rat) powi m \<le> 2 powi n"
  by (rule power_int_increasing) simp_all

lemma two_powi_diff: "(2::rat) powi m / 2 powi n = 2 powi (m - n)"
  by (simp add: power_int_diff)

lemma of_int_bitlen_bounds:
  assumes "0 < (p::int)"
  shows "(2::rat) powi (bitlen p - 1) \<le> of_int p \<and> (of_int p :: rat) < 2 powi (bitlen p)"
proof -
  from bitlen_bounds [OF assms]
  have lo: "2 ^ nat (bitlen p - 1) \<le> p" and hi: "p < 2 ^ nat (bitlen p)" by simp_all
  have b1: "1 \<le> bitlen p" using assms by (simp add: bitlen_alt_def)
  have "(of_int (2 ^ nat (bitlen p - 1)) :: rat) \<le> of_int p" using lo by (simp only: of_int_le_iff)
  then have L: "(2::rat) powi (bitlen p - 1) \<le> of_int p"
    using b1 by (simp add: power_int_nonneg_exp)
  have "(of_int p :: rat) < of_int (2 ^ nat (bitlen p))" using hi by (simp only: of_int_less_iff)
  then have H: "(of_int p :: rat) < 2 powi (bitlen p)"
    using b1 by (simp add: power_int_nonneg_exp)
  show ?thesis using L H by simp
qed

lemma float_exponent_bounds:
  assumes "0 < x"
  shows "2 powi (float_exponent x) \<le> x \<and> x < 2 powi (float_exponent x + 1)"
proof -
  obtain p q where pq: "quotient_of x = (p, q)" by (cases "quotient_of x")
  have q: "0 < q" using pq by (rule quotient_of_denom_pos)
  have x: "x = of_int p / of_int q" using pq by (rule quotient_of_div)
  have p: "0 < p" using assms q x by (simp add: zero_less_divide_iff)
  define d where "d = bitlen p - bitlen q"
  note bp = of_int_bitlen_bounds [OF p] and bq = of_int_bitlen_bounds [OF q]
  have qpos: "(0::rat) < of_int q" using q by simp
  have ppos: "(0::rat) < of_int p" using p by simp
  have lo: "2 powi (d - 1) \<le> x"
  proof -
    have "(2::rat) powi (d - 1) = 2 powi (bitlen p - 1) / 2 powi (bitlen q)"
      by (simp add: two_powi_diff d_def algebra_simps)
    also have "\<dots> \<le> of_int p / 2 powi (bitlen q)"
      using bp two_powi_pos [of "bitlen q"] by (simp add: divide_right_mono)
    also have "\<dots> \<le> of_int p / of_int q"
      using bq qpos ppos by (intro divide_left_mono) (simp_all add: two_powi_pos)
    finally show ?thesis by (simp add: x)
  qed
  have hi: "x < 2 powi (d + 1)"
  proof -
    have "x = of_int p / of_int q" by (rule x)
    also have "\<dots> < 2 powi (bitlen p) / of_int q"
      using bp qpos by (simp add: divide_strict_right_mono)
    also have "\<dots> \<le> 2 powi (bitlen p) / 2 powi (bitlen q - 1)"
      using bq qpos by (intro divide_left_mono) (simp_all add: two_powi_pos less_imp_le)
    also have "\<dots> = 2 powi (d + 1)"
      by (simp add: two_powi_diff d_def algebra_simps)
    finally show ?thesis .
  qed
  have e: "float_exponent x = (if 2 powi d \<le> x then d else d - 1)"
    by (simp add: float_exponent_def pq d_def)
  show ?thesis
  proof (cases "2 powi d \<le> x")
    case True
    then show ?thesis using hi e by simp
  next
    case False
    then show ?thesis using lo e by simp
  qed
qed

lemma float_exponent_mono:
  assumes "0 < x" "x \<le> y"
  shows "float_exponent x \<le> float_exponent y"
proof (rule ccontr)
  assume "\<not> float_exponent x \<le> float_exponent y"
  then have "float_exponent y + 1 \<le> float_exponent x" by simp
  then have "(2::rat) powi (float_exponent y + 1) \<le> 2 powi (float_exponent x)"
    by (rule two_powi_mono)
  moreover have "y < 2 powi (float_exponent y + 1)"
    using float_exponent_bounds [of y] assms by simp
  moreover have "2 powi (float_exponent x) \<le> x"
    using float_exponent_bounds [OF assms(1)] by simp
  ultimately show False using assms(2) by linarith
qed

lemma float_ulp_pos: "0 < float_ulp x"
  by (simp add: float_ulp_def two_powi_pos)

lemma round_double_pos_eq:
  "0 < x \<Longrightarrow> round_double x = of_int (round_half_even (x / float_ulp x)) * float_ulp x"
  by (simp add: round_double_def)

lemma round_double_nonneg:
  assumes "0 \<le> x" shows "0 \<le> round_double x"
proof (cases "x = 0")
  case True
  then show ?thesis by (simp add: round_double_def)
next
  case False
  with assms have x: "0 < x" by simp
  have "0 \<le> x / float_ulp x" using x float_ulp_pos [of x] by simp
  then have "round_half_even 0 \<le> round_half_even (x / float_ulp x)"
    by (rule round_half_even_mono)
  then have "0 \<le> round_half_even (x / float_ulp x)"
    using round_half_even_of_int [of 0] by simp
  then show ?thesis
    using x float_ulp_pos [of x] by (simp add: round_double_pos_eq)
qed

lemma round_double_mono_pos:
  assumes x: "0 < x" and xy: "x \<le> y"
  shows "round_double x \<le> round_double y"
proof -
  have y: "0 < y" using x xy by simp
  define ex where "ex = max (float_exponent x) (- 1022)"
  define ey where "ey = max (float_exponent y) (- 1022)"
  have ux: "float_ulp x = 2 powi (ex - 52)" by (simp add: float_ulp_def ex_def)
  have uy: "float_ulp y = 2 powi (ey - 52)" by (simp add: float_ulp_def ey_def)
  have le: "ex \<le> ey"
    using float_exponent_mono [OF x xy] by (simp add: ex_def ey_def)
  show ?thesis
  proof (cases "ex = ey")
    case True
    then have u: "float_ulp y = float_ulp x" by (simp add: ux uy)
    have "x / float_ulp x \<le> y / float_ulp x"
      using xy float_ulp_pos [of x] by (simp add: divide_right_mono)
    then have "round_half_even (x / float_ulp x) \<le> round_half_even (y / float_ulp x)"
      by (rule round_half_even_mono)
    then have "(of_int (round_half_even (x / float_ulp x)) :: rat) * float_ulp x
                 \<le> of_int (round_half_even (y / float_ulp x)) * float_ulp x"
      using float_ulp_pos [of x] by (simp add: mult_right_mono)
    then show ?thesis using x y u by (simp add: round_double_pos_eq)
  next
    case False
    with le have lt: "ex + 1 \<le> ey" by simp
    have exl: "- 1022 \<le> ex" by (simp add: ex_def)
    have eyf: "ey = float_exponent y"
      using lt exl by (simp add: ey_def max_def split: if_splits)
    have exf: "float_exponent x \<le> ex" by (simp add: ex_def)
    \<comment> \<open>the upper value is at least \<open>2 powi ey\<close>\<close>
    have "2 powi ey \<le> y" using float_exponent_bounds [OF y] eyf by simp
    then have "2 powi ey / float_ulp y \<le> y / float_ulp y"
      using float_ulp_pos [of y] by (simp add: divide_right_mono)
    then have "(2::rat) powi 52 \<le> y / float_ulp y"
      by (simp add: uy two_powi_diff)
    then have "(of_int (2 ^ 52) :: rat) \<le> y / float_ulp y" by simp
    then have "round_half_even (of_int (2 ^ 52)) \<le> round_half_even (y / float_ulp y)"
      by (rule round_half_even_mono)
    then have "(2 ^ 52 :: int) \<le> round_half_even (y / float_ulp y)"
      by (simp only: round_half_even_of_int)
    then have "(of_int (2 ^ 52) :: rat) \<le> of_int (round_half_even (y / float_ulp y))"
      by (simp only: of_int_le_iff)
    then have "(of_int (2 ^ 52) :: rat) * float_ulp y
                 \<le> of_int (round_half_even (y / float_ulp y)) * float_ulp y"
      using float_ulp_pos [of y] by (intro mult_right_mono) simp_all
    moreover have "(of_int (2 ^ 52) :: rat) * float_ulp y = 2 powi ey"
    proof -
      have c: "(of_int (2 ^ 52) :: rat) = 2 powi 52" by simp
      have a: "(2::rat) powi 52 * 2 powi (ey - 52) = 2 powi (52 + (ey - 52))"
        by (rule power_int_add [symmetric]) simp
      have b: "52 + (ey - 52) = ey" by simp
      show ?thesis unfolding uy c by (simp only: a b)
    qed
    ultimately have Y: "2 powi ey \<le> round_double y"
      using y by (simp add: round_double_pos_eq)
    \<comment> \<open>the lower value is at most \<open>2 powi (ex + 1)\<close>\<close>
    have "x < 2 powi (float_exponent x + 1)" using float_exponent_bounds [OF x] by simp
    also have "\<dots> \<le> 2 powi (ex + 1)" using exf by (intro two_powi_mono) simp
    finally have "x \<le> 2 powi (ex + 1)" by simp
    then have "x / float_ulp x \<le> 2 powi (ex + 1) / float_ulp x"
      using float_ulp_pos [of x] by (simp add: divide_right_mono)
    then have "x / float_ulp x \<le> (2::rat) powi 53"
      by (simp add: ux two_powi_diff)
    then have "x / float_ulp x \<le> (of_int (2 ^ 53) :: rat)" by simp
    then have "round_half_even (x / float_ulp x) \<le> round_half_even (of_int (2 ^ 53))"
      by (rule round_half_even_mono)
    then have "round_half_even (x / float_ulp x) \<le> (2 ^ 53 :: int)"
      by (simp only: round_half_even_of_int)
    then have "(of_int (round_half_even (x / float_ulp x)) :: rat) \<le> of_int (2 ^ 53)"
      by (simp only: of_int_le_iff)
    then have "(of_int (round_half_even (x / float_ulp x)) :: rat) * float_ulp x
                 \<le> of_int (2 ^ 53) * float_ulp x"
      using float_ulp_pos [of x] by (intro mult_right_mono) simp_all
    moreover have "(of_int (2 ^ 53) :: rat) * float_ulp x = 2 powi (ex + 1)"
    proof -
      have c: "(of_int (2 ^ 53) :: rat) = 2 powi 53" by simp
      have a: "(2::rat) powi 53 * 2 powi (ex - 52) = 2 powi (53 + (ex - 52))"
        by (rule power_int_add [symmetric]) simp
      have b: "53 + (ex - 52) = ex + 1" by simp
      show ?thesis unfolding ux c by (simp only: a b)
    qed
    ultimately have X: "round_double x \<le> 2 powi (ex + 1)"
      using x by (simp add: round_double_pos_eq)
    have "(2::rat) powi (ex + 1) \<le> 2 powi ey" using lt by (rule two_powi_mono)
    with X Y show ?thesis by linarith
  qed
qed

lemma round_double_mono:
  assumes "0 \<le> x" "x \<le> y"
  shows "round_double x \<le> round_double y"
proof (cases "x = 0")
  case True
  have "0 \<le> round_double y" using assms by (intro round_double_nonneg) simp
  then show ?thesis using True by (simp add: round_double_def)
next
  case False
  with assms(1) have "0 < x" by simp
  then show ?thesis using assms(2) by (rule round_double_mono_pos)
qed

text \<open>The rounded value is a multiple of the spacing, within half a spacing of the exact value.\<close>

lemma round_half_even_error: "\<bar>of_int (round_half_even y) - y\<bar> \<le> 1 / 2"
proof -
  have "of_int \<lfloor>y\<rfloor> \<le> y" "y < of_int \<lfloor>y\<rfloor> + 1" by linarith+
  then show ?thesis
    by (auto simp: round_half_even_def Let_def abs_le_iff)
qed

lemma round_double_error:
  assumes "0 < x"
  shows "\<bar>round_double x - x\<bar> \<le> float_ulp x / 2 \<and>
         round_double x = of_int (round_half_even (x / float_ulp x)) * float_ulp x"
proof -
  let ?u = "float_ulp x"
  have u: "0 < ?u" by (rule float_ulp_pos)
  have "\<bar>of_int (round_half_even (x / ?u)) - x / ?u\<bar> \<le> 1 / 2"
    by (rule round_half_even_error)
  then have "\<bar>of_int (round_half_even (x / ?u)) - x / ?u\<bar> * ?u \<le> 1 / 2 * ?u"
    using u by (intro mult_right_mono) simp_all
  moreover have "\<bar>of_int (round_half_even (x / ?u)) - x / ?u\<bar> * ?u
                   = \<bar>of_int (round_half_even (x / ?u)) * ?u - x\<bar>"
  proof -
    have "\<bar>of_int (round_half_even (x / ?u)) - x / ?u\<bar> * ?u
            = \<bar>(of_int (round_half_even (x / ?u)) - x / ?u) * ?u\<bar>"
      using u by (simp add: abs_mult)
    also have "(of_int (round_half_even (x / ?u)) - x / ?u) * ?u
            = of_int (round_half_even (x / ?u)) * ?u - x"
      using u by (simp add: left_diff_distrib)
    finally show ?thesis .
  qed
  ultimately show ?thesis using assms by (simp add: round_double_pos_eq)
qed

lemma round_double_0: "round_double 0 = 0"
  by (simp add: round_double_def)

lemma round_double_1: "round_double 1 = 1"
  by code_simp

lemma round_double_100: "round_double 100 = 100"
  by code_simp

lemma float_overflows_iff:
  "float_overflows r \<longleftrightarrow> 2 ^ 1024 \<le> \<bar>r\<bar>"
proof (cases "r = 0")
  case True
  then show ?thesis by (simp add: float_overflows_def)
next
  case False
  then have pos: "0 < \<bar>r\<bar>" by simp
  note b = float_exponent_bounds [OF pos]
  have p: "(2::rat) ^ 1024 = 2 powi 1024" by simp
  show ?thesis
  proof
    assume "float_overflows r"
    then have "1024 \<le> float_exponent \<bar>r\<bar>" by (simp add: float_overflows_def)
    then have "(2::rat) powi 1024 \<le> 2 powi (float_exponent \<bar>r\<bar>)" by (rule two_powi_mono)
    with b show "2 ^ 1024 \<le> \<bar>r\<bar>" unfolding p by linarith
  next
    assume a: "2 ^ 1024 \<le> \<bar>r\<bar>"
    have "1024 \<le> float_exponent \<bar>r\<bar>"
    proof (rule ccontr)
      assume "\<not> 1024 \<le> float_exponent \<bar>r\<bar>"
      then have "float_exponent \<bar>r\<bar> + 1 \<le> 1024" by simp
      then have "(2::rat) powi (float_exponent \<bar>r\<bar> + 1) \<le> 2 powi 1024" by (rule two_powi_mono)
      with b a show False unfolding p by linarith
    qed
    then show "float_overflows r" using False by (simp add: float_overflows_def)
  qed
qed

lemma float_overflows_small:
  assumes "0 \<le> r" "r \<le> 100" shows "\<not> float_overflows r"
proof -
  have "(100::rat) < 2 ^ 1024" by simp
  with assms have "\<not> 2 ^ 1024 \<le> \<bar>r\<bar>" by simp
  then show ?thesis by (simp only: float_overflows_iff not_False_eq_True)
qed

lemma int_truediv_ok:
  assumes "0 < n" "a \<le> n"
  shows "int_truediv a n = Inr (round_double (of_nat a / of_nat n)) \<and>
         0 \<le> round_double (of_nat a / of_nat n) \<and> round_double (of_nat a / of_nat n) \<le> 1"
proof -
  have n: "(0::rat) < of_nat n" using assms(1) by simp
  have q0: "(0::rat) \<le> of_nat a / of_nat n" by simp
  have "(of_nat a :: rat) \<le> of_nat n" using assms(2) by simp
  then have q1: "(of_nat a :: rat) / of_nat n \<le> 1" using n by simp
  have lo: "0 \<le> round_double (of_nat a / of_nat n)" using q0 by (rule round_double_nonneg)
  have "round_double (of_nat a / of_nat n) \<le> round_double 1"
    using q0 q1 by (rule round_double_mono)
  then have hi: "round_double (of_nat a / of_nat n) \<le> 1" by (simp only: round_double_1)
  have "\<not> float_overflows (round_double (of_nat a / of_nat n))"
    using lo hi by (intro float_overflows_small) simp_all
  then show ?thesis using assms(1) lo hi by (simp add: int_truediv_def Let_def)
qed

lemma float_mul_100_finite:
  assumes "0 \<le> a" "a \<le> 1"
  shows "float_mul a 100 = Finite (round_double (a * 100)) \<and>
         0 \<le> round_double (a * 100) \<and> round_double (a * 100) \<le> 100"
proof -
  have p0: "0 \<le> a * 100" using assms(1) by simp
  have p1: "a * 100 \<le> 100" using assms(2) by simp
  have lo: "0 \<le> round_double (a * 100)" using p0 by (rule round_double_nonneg)
  have "round_double (a * 100) \<le> round_double 100" using p0 p1 by (rule round_double_mono)
  then have hi: "round_double (a * 100) \<le> 100" by (simp only: round_double_100)
  have a: "\<not> float_overflows (round_double (a * 100))"
    using lo hi by (rule float_overflows_small)
  show ?thesis using a lo hi by (simp add: float_mul_def Let_def)
qed

lemma float_mul_0_100: "float_mul 0 100 = Finite 0"
  using float_mul_100_finite [of 0] by (simp add: round_double_0)

lemma float_mul_1_100: "float_mul 1 100 = Finite 100"
  using float_mul_100_finite [of 1] by (simp add: round_double_100)

subsection \<open>The session invariant\<close>

lemma build_slides_from_length: "length (build_slides_from idx tot qs) = length qs"
  by (induction idx tot qs rule: build_slides_from.induct) simp_all

lemma build_slides_from_data: "map question_data (build_slides_from idx tot qs) = map snd qs"
  by (induction idx tot qs rule: build_slides_from.induct) simp_all

lemma show_slide_inv:
  assumes "session_inv s" "idx \<le> length (questions s)"
  shows "\<exists>s'. show_slide idx s = Inr s' \<and> session_inv s' \<and> current_idx s' = idx \<and>
              questions s' = questions s \<and> slides s' = slides s \<and>
              answers s' = answers s \<and> scores s' = scores s \<and> summary_text s' = summary_text s"
proof -
  from assms have pos: "0 < length (slides s)" and le: "idx \<le> length (slides s)"
    by (simp_all add: session_inv_def)
  have d: "int_truediv idx (length (slides s)) =
             Inr (round_double (of_nat idx / of_nat (length (slides s))))"
    using int_truediv_ok [OF pos le] by simp
  have r: "show_slide idx s =
      Inr (s\<lparr>progress_var := float_mul (round_double (of_nat idx / of_nat (length (slides s)))) 100,
             btn_prev_enabled := (0 < idx),
             btn_next_enabled := (idx < length (slides s)),
             current_idx := idx\<rparr>)"
    by (simp add: show_slide_def d)
  show ?thesis unfolding r using assms by (simp add: session_inv_def)
qed

lemma init_app_inv:
  assumes "init_app qs = Inr s"
  shows "session_inv s \<and> current_idx s = 0 \<and> questions s = qs \<and> progress_var s = Finite 0"
proof -
  have ne: "qs \<noteq> []"
  proof
    assume "qs = []"
    then show False using assms
      by (simp add: init_app_def show_slide_def int_truediv_def build_slides_def)
  qed
  then have pos: "0 < length qs" by simp
  have d: "int_truediv 0 (length qs) = Inr 0"
    using int_truediv_ok [OF pos, of 0] by (simp add: round_double_0)
  have s: "s = \<lparr>questions = qs, slides = build_slides qs, current_idx = 0,
        answers = replicate (length qs) [], scores = replicate (length qs) 0,
        progress_var = Finite 0, btn_prev_enabled = False, btn_next_enabled = True,
        summary_text = None\<rparr>"
    using assms pos
    by (simp add: init_app_def show_slide_def build_slides_def build_slides_from_length d
          float_mul_0_100)
  show ?thesis
    using pos
    by (simp add: s session_inv_def build_slides_def build_slides_from_length
          build_slides_from_data round_double_0 float_mul_0_100)
qed

lemma new_app_inv:
  assumes "new_app tech hr nt nh rt rh = Inr s"
  shows "session_inv s \<and> current_idx s = 0 \<and> progress_var s = Finite 0"
  using assms init_app_inv
  by (auto simp: new_app_def split: sum.splits)

lemma map_question_data_update:
  "i < length sl \<Longrightarrow> question_data x = question_data (sl ! i) \<Longrightarrow>
   map question_data (sl[i := x]) = map question_data sl"
  by (simp add: map_update) (metis list_update_id nth_map length_map)

lemma type_answer_inv: "session_inv s \<Longrightarrow> session_inv (type_answer t s)"
proof (cases "current_idx s < length (slides s)")
  case True
  assume inv: "session_inv s"
  have md: "map question_data ((slides s)[current_idx s := (slides s ! current_idx s)\<lparr>txt := t\<rparr>])
              = map question_data (slides s)"
    using True by (intro map_question_data_update) simp_all
  show ?thesis using inv True md by (simp add: type_answer_def session_inv_def)
next
  case False
  assume "session_inv s"
  then show ?thesis using False by (simp add: type_answer_def)
qed

lemma evaluate_current_summary: "length (slides s) \<le> current_idx s \<Longrightarrow> evaluate_current s = Inr s"
  by (simp add: evaluate_current_def)

lemma evaluate_current_active:
  assumes "session_inv s" "current_idx s < length (slides s)"
  shows "evaluate_current s =
    Inr (s\<lparr>answers := (answers s)[current_idx s := get_answer (slides s ! current_idx s)],
           scores := (scores s)[current_idx s :=
             fst (evaluate_answer (get_answer (slides s ! current_idx s))
                    (keywords (question_data (slides s ! current_idx s))))],
           slides := (slides s)[current_idx s := (slides s ! current_idx s)
             \<lparr>fb_var := Some (fst (snd (evaluate_answer (get_answer (slides s ! current_idx s))
                    (keywords (question_data (slides s ! current_idx s)))))),
              hint_var :=
                (if snd (snd (evaluate_answer (get_answer (slides s ! current_idx s))
                    (keywords (question_data (slides s ! current_idx s))))) \<noteq> []
                 then ''Matched keywords: '' @ join '', ''
                    (snd (snd (evaluate_answer (get_answer (slides s ! current_idx s))
                    (keywords (question_data (slides s ! current_idx s))))))
                 else [])\<rparr>]\<rparr>)"
  using assms
  by (simp add: evaluate_current_def session_inv_def Let_def split: prod.splits)

lemma evaluate_current_inv:
  assumes "session_inv s"
  shows "\<exists>s'. evaluate_current s = Inr s' \<and> session_inv s' \<and>
           current_idx s' = current_idx s \<and> questions s' = questions s \<and>
           length (slides s') = length (slides s)"
proof (cases "current_idx s < length (slides s)")
  case True
  have md: "map question_data ((slides s)[current_idx s := (slides s ! current_idx s)\<lparr>fb_var := a, hint_var := b\<rparr>])
              = map question_data (slides s)" for a b
    using True by (intro map_question_data_update) simp_all
  show ?thesis
    using assms True md
    by (simp add: evaluate_current_active) (simp add: session_inv_def)
next
  case False
  then show ?thesis using assms by (simp add: evaluate_current_summary)
qed

subsection \<open>The summary's loops\<close>

lemma map_entry_keys: "map fst (AList.map_entry k f al) = map fst al"
  by (induction al) auto

lemma tally_step_keys:
  "map fst (tally_step sect sc poss sw) =
     (if sect \<in> set (map fst sw) then map fst sw else map fst sw @ [sect])"
proof (cases "map_of sw sect")
  case None
  then have "sect \<notin> set (map fst sw)" by (simp add: map_of_eq_None_iff)
  then show ?thesis using None
    by (simp add: tally_step_def setdefault_def map_entry_keys update_keys)
next
  case (Some v)
  then have "sect \<in> set (map fst sw)" by (metis map_of_eq_None_iff option.distinct(1) set_map)
  then show ?thesis using Some
    by (simp add: tally_step_def setdefault_def map_entry_keys)
qed

lemma tally_step_map_of:
  "map_of (tally_step sect sc poss sw) =
     (map_of sw)(sect \<mapsto>
        (case map_of sw sect of
           None \<Rightarrow> \<lparr>score = sc, possible = poss\<rparr>
         | Some v \<Rightarrow> \<lparr>score = score v + sc, possible = possible v + poss\<rparr>))"
  by (cases "map_of sw sect")
     (auto simp: tally_step_def setdefault_def map_of_map_entry update_conv' fun_eq_iff)

lemma section_loop_keys:
  "section_loop i qs scs sw = Inr sw' \<Longrightarrow>
   map fst sw' = map fst sw @ filter (\<lambda>c. c \<notin> set (map fst sw)) (first_seen (map fst qs))"
proof (induction i qs scs sw rule: section_loop.induct)
  case (1 i scs sw)
  then show ?case by simp
next
  case (2 i sect qdata qs scs sw)
  let ?sw1 = "tally_step sect (scs ! i) (length (keywords qdata)) sw"
  from "2.prems" have lt: "i < length scs" and run: "section_loop (Suc i) qs scs ?sw1 = Inr sw'"
    by (auto split: if_splits)
  have IH: "map fst sw' = map fst ?sw1 @
              filter (\<lambda>c. c \<notin> set (map fst ?sw1)) (first_seen (map fst qs))"
    using "2.IH" [OF lt run] .
  show ?case
  proof (cases "sect \<in> set (map fst sw)")
    case True
    have "filter (\<lambda>c. c \<notin> set (map fst sw)) (filter (\<lambda>d. d \<noteq> sect) (first_seen (map fst qs)))
          = filter (\<lambda>c. c \<notin> set (map fst sw)) (first_seen (map fst qs))"
      using True by (auto intro: filter_cong)
    then show ?thesis using IH True by (simp add: tally_step_keys)
  next
    case False
    have "filter (\<lambda>c. c \<notin> set (map fst sw)) (filter (\<lambda>d. d \<noteq> sect) (first_seen (map fst qs)))
          = filter (\<lambda>c. c \<noteq> sect \<and> c \<notin> set (map fst sw)) (first_seen (map fst qs))"
      by (auto intro: filter_cong)
    then show ?thesis using IH False by (simp add: tally_step_keys)
  qed
qed

lemma section_loop_ok:
  "i + length qs \<le> length scs \<Longrightarrow> \<exists>sw'. section_loop i qs scs sw = Inr sw'"
  by (induction i qs scs sw rule: section_loop.induct) auto

lemma detail_loop_ok:
  "i + length qs \<le> length anss \<Longrightarrow> i + length qs \<le> length scs \<Longrightarrow>
   \<exists>ds. detail_loop i qs anss scs = Inr ds"
  by (induction i qs anss scs rule: detail_loop.induct) (auto simp: Let_def)

lemma map_entry_sum_score:
  "k \<in> set (map fst al) \<Longrightarrow>
   sum_list (map (\<lambda>p. score (snd p)) (AList.map_entry k (\<lambda>v. v\<lparr>score := score v + n\<rparr>) al))
     = sum_list (map (\<lambda>p. score (snd p)) al) + n"
  by (induction al) auto

lemma map_entry_sum_score_other:
  "sum_list (map (\<lambda>p. score (snd p)) (AList.map_entry k (\<lambda>v. v\<lparr>possible := possible v + n\<rparr>) al))
     = sum_list (map (\<lambda>p. score (snd p)) al)"
  by (induction al) auto

lemma map_entry_sum_possible:
  "k \<in> set (map fst al) \<Longrightarrow>
   sum_list (map (\<lambda>p. possible (snd p)) (AList.map_entry k (\<lambda>v. v\<lparr>possible := possible v + n\<rparr>) al))
     = sum_list (map (\<lambda>p. possible (snd p)) al) + n"
  by (induction al) auto

lemma map_entry_sum_possible_other:
  "sum_list (map (\<lambda>p. possible (snd p)) (AList.map_entry k (\<lambda>v. v\<lparr>score := score v + n\<rparr>) al))
     = sum_list (map (\<lambda>p. possible (snd p)) al)"
  by (induction al) auto

lemma setdefault_keys: "k \<in> set (map fst (setdefault k d sw))"
proof (cases "map_of sw k")
  case None
  then have "setdefault k d sw = AList.update k d sw" by (simp add: setdefault_def)
  then show ?thesis by (simp add: dom_update)
next
  case (Some v)
  then have "(k, v) \<in> set sw" by (rule map_of_SomeD)
  then have "k \<in> fst ` set sw" by force
  then show ?thesis using Some by (simp add: setdefault_def)
qed

lemma setdefault_sums:
  "sum_list (map (\<lambda>p. score (snd p)) (setdefault k \<lparr>score = 0, possible = 0\<rparr> sw))
     = sum_list (map (\<lambda>p. score (snd p)) sw) \<and>
   sum_list (map (\<lambda>p. possible (snd p)) (setdefault k \<lparr>score = 0, possible = 0\<rparr> sw))
     = sum_list (map (\<lambda>p. possible (snd p)) sw)"
proof (cases "map_of sw k")
  case None
  then have "k \<notin> fst ` set sw" by (simp add: map_of_eq_None_iff)
  then have "AList.update k v sw = sw @ [(k, v)]" for v :: tally
    by (induction sw) auto
  then show ?thesis using None by (simp add: setdefault_def)
next
  case (Some v)
  then show ?thesis by (simp add: setdefault_def)
qed

lemma tally_step_sums:
  "sum_list (map (\<lambda>p. score (snd p)) (tally_step sect sc poss sw))
     = sum_list (map (\<lambda>p. score (snd p)) sw) + sc \<and>
   sum_list (map (\<lambda>p. possible (snd p)) (tally_step sect sc poss sw))
     = sum_list (map (\<lambda>p. possible (snd p)) sw) + poss"
proof -
  let ?sd = "setdefault sect \<lparr>score = 0, possible = 0\<rparr> sw"
  let ?m1 = "AList.map_entry sect (\<lambda>v. v\<lparr>score := score v + sc\<rparr>) ?sd"
  have k0: "sect \<in> set (map fst ?sd)" by (rule setdefault_keys)
  have k1: "sect \<in> set (map fst ?m1)" using k0 by (simp add: map_entry_keys)
  show ?thesis
    unfolding tally_step_def
    by (simp add: map_entry_sum_score_other map_entry_sum_possible [OF k1]
          map_entry_sum_score [OF k0] map_entry_sum_possible_other setdefault_sums)
qed

lemma section_loop_sums:
  "section_loop i qs scs sw = Inr sw' \<Longrightarrow>
   sum_list (map (\<lambda>p. score (snd p)) sw')
     = sum_list (map (\<lambda>p. score (snd p)) sw) + sum_list (take (length qs) (drop i scs)) \<and>
   sum_list (map (\<lambda>p. possible (snd p)) sw')
     = sum_list (map (\<lambda>p. possible (snd p)) sw)
       + sum_list (map (\<lambda>qq. length (keywords (snd qq))) qs)"
proof (induction i qs scs sw rule: section_loop.induct)
  case (1 i scs sw)
  then show ?case by simp
next
  case (2 i sect qdata qs scs sw)
  let ?sw1 = "tally_step sect (scs ! i) (length (keywords qdata)) sw"
  from "2.prems" have lt: "i < length scs" and run: "section_loop (Suc i) qs scs ?sw1 = Inr sw'"
    by (auto split: if_splits)
  note IH = "2.IH" [OF lt run]
  have d: "drop i scs = scs ! i # drop (Suc i) scs"
    using lt by (simp add: Cons_nth_drop_Suc)
  show ?case using IH by (simp add: tally_step_sums d)
qed

lemma section_tally_Cons:
  "section_tally c ((sect, qd) # qs) (x # xs) =
     (if sect = c
      then \<lparr>score = x + score (section_tally c qs xs),
            possible = length (keywords qd) + possible (section_tally c qs xs)\<rparr>
      else section_tally c qs xs)"
  by (simp add: section_tally_def)

lemma section_loop_map_of:
  "section_loop i qs scs sw = Inr sw' \<Longrightarrow>
   map_of sw' c =
     (if c \<in> set (map fst qs)
      then Some (case map_of sw c of
                   None \<Rightarrow> section_tally c qs (drop i scs)
                 | Some v \<Rightarrow> \<lparr>score = score v + score (section_tally c qs (drop i scs)),
                              possible = possible v + possible (section_tally c qs (drop i scs))\<rparr>)
      else map_of sw c)"
proof (induction i qs scs sw rule: section_loop.induct)
  case (1 i scs sw)
  then show ?case by simp
next
  case (2 i sect qdata qs scs sw)
  let ?sw1 = "tally_step sect (scs ! i) (length (keywords qdata)) sw"
  from "2.prems" have lt: "i < length scs" and run: "section_loop (Suc i) qs scs ?sw1 = Inr sw'"
    by (auto split: if_splits)
  note IH = "2.IH" [OF lt run]
  have d: "drop i scs = scs ! i # drop (Suc i) scs"
    using lt by (simp add: Cons_nth_drop_Suc)
  have nomatch: "section_tally c qs xs = \<lparr>score = 0, possible = 0\<rparr>"
    if "c \<notin> set (map fst qs)" for xs
  proof -
    have "filter (\<lambda>p. fst p = c) qs = []" using that by (auto simp: filter_empty_conv)
    moreover have "filter (\<lambda>p. fst (fst p) = c) (zip qs xs) = []"
      using that by (auto simp: filter_empty_conv dest!: set_zip_leftD)
    ultimately show ?thesis by (simp add: section_tally_def)
  qed
  show ?case
  proof (cases "c = sect")
    case True
    show ?thesis
    proof (cases "c \<in> set (map fst qs)")
      case inq: True
      then show ?thesis using IH True
        by (cases "map_of sw sect") (simp_all add: d section_tally_Cons tally_step_map_of)
    next
      case False
      then show ?thesis using IH True nomatch [OF False]
        by (cases "map_of sw sect") (simp_all add: d section_tally_Cons tally_step_map_of)
    qed
  next
    case False
    then show ?thesis using IH
      by (cases "map_of sw c") (simp_all add: d section_tally_Cons tally_step_map_of)
  qed
qed

lemma build_report_ok:
  assumes "session_inv s"
  shows "\<exists>sw ds. section_loop 0 (questions s) (scores s) [] = Inr sw \<and>
           detail_loop 0 (questions s) (answers s) (scores s) = Inr ds \<and>
           build_report s = Inr \<lparr>total_score = sum_list (scores s),
             total_keywords = sum_list (map (\<lambda>qq. length (keywords (snd qq))) (questions s)),
             section_wise = sw, details = ds\<rparr>"
proof -
  from assms have la: "0 + length (questions s) \<le> length (answers s)"
    and ls: "0 + length (questions s) \<le> length (scores s)"
    by (simp_all add: session_inv_def)
  obtain sw where sw: "section_loop 0 (questions s) (scores s) [] = Inr sw"
    using section_loop_ok [OF ls] by blast
  obtain ds where ds: "detail_loop 0 (questions s) (answers s) (scores s) = Inr ds"
    using detail_loop_ok [OF la ls] by blast
  show ?thesis using sw ds by (simp add: build_report_def)
qed

lemma show_summary_inv:
  assumes "session_inv s"
  shows "\<exists>s'. show_summary s = Inr s' \<and> session_inv s' \<and>
           current_idx s' = length (questions s) \<and> questions s' = questions s \<and>
           slides s' = slides s \<and> answers s' = answers s \<and> scores s' = scores s"
proof -
  obtain sw ds where r: "build_report s = Inr \<lparr>total_score = sum_list (scores s),
             total_keywords = sum_list (map (\<lambda>qq. length (keywords (snd qq))) (questions s)),
             section_wise = sw, details = ds\<rparr>"
    using build_report_ok [OF assms] by blast
  have inv': "session_inv (s\<lparr>summary_text := Some \<lparr>total_score = sum_list (scores s),
             total_keywords = sum_list (map (\<lambda>qq. length (keywords (snd qq))) (questions s)),
             section_wise = sw, details = ds\<rparr>\<rparr>)"
    using assms by (simp add: session_inv_def)
  have len: "length (slides s) = length (questions s)"
    using assms by (simp add: session_inv_def)
  from show_slide_inv [OF inv', of "length (slides s)"] len
  obtain s' where "show_slide (length (slides s)) (s\<lparr>summary_text := Some \<lparr>total_score = sum_list (scores s),
             total_keywords = sum_list (map (\<lambda>qq. length (keywords (snd qq))) (questions s)),
             section_wise = sw, details = ds\<rparr>\<rparr>) = Inr s'" "session_inv s'"
      "current_idx s' = length (slides s)" "questions s' = questions s" "slides s' = slides s"
      "answers s' = answers s" "scores s' = scores s"
    by auto
  then show ?thesis using r len by (simp add: show_summary_def)
qed

lemma next_slide_inv:
  assumes "session_inv s"
  shows "\<exists>s'. next_slide s = Inr s' \<and> session_inv s' \<and> questions s' = questions s \<and>
           length (slides s') = length (slides s) \<and>
           current_idx s' = min (current_idx s + 1) (length (questions s))"
proof -
  obtain s1 where e: "evaluate_current s = Inr s1" and i1: "session_inv s1"
    and c1: "current_idx s1 = current_idx s" and q1: "questions s1 = questions s"
    and l1: "length (slides s1) = length (slides s)"
    using evaluate_current_inv [OF assms] by blast
  have len: "length (slides s1) = length (questions s1)" and le: "current_idx s1 \<le> length (questions s1)"
    using i1 by (simp_all add: session_inv_def)
  show ?thesis
  proof (cases "int (current_idx s1) < int (length (slides s1)) - 1")
    case True
    then have b: "current_idx s1 + 1 \<le> length (questions s1)" using len by simp
    obtain s' where "show_slide (current_idx s1 + 1) s1 = Inr s'" "session_inv s'"
      "current_idx s' = current_idx s1 + 1" "questions s' = questions s1" "slides s' = slides s1"
      using show_slide_inv [OF i1 b] by blast
    then show ?thesis using e True c1 q1 l1 b by (simp add: next_slide_def)
  next
    case False
    obtain s' where "show_summary s1 = Inr s'" "session_inv s'"
      "current_idx s' = length (questions s1)" "questions s' = questions s1" "slides s' = slides s1"
      using show_summary_inv [OF i1] by blast
    moreover have "min (current_idx s + 1) (length (questions s)) = length (questions s)"
      using False len le c1 q1 by simp
    ultimately show ?thesis using e False c1 q1 l1 by (simp add: next_slide_def)
  qed
qed

lemma prev_slide_inv:
  assumes "session_inv s"
  shows "\<exists>s'. prev_slide s = Inr s' \<and> session_inv s' \<and> questions s' = questions s \<and>
           length (slides s') = length (slides s) \<and>
           current_idx s' = current_idx s - 1 \<and> (current_idx s = 0 \<longrightarrow> s' = s)"
proof (cases "0 < current_idx s")
  case True
  have "current_idx s \<le> length (questions s)"
    using assms by (simp add: session_inv_def)
  then have b: "current_idx s - 1 \<le> length (questions s)" by simp
  obtain s' where "show_slide (current_idx s - 1) s = Inr s'" "session_inv s'"
      "current_idx s' = current_idx s - 1" "questions s' = questions s" "slides s' = slides s"
    using show_slide_inv [OF assms b] by blast
  then show ?thesis using True by (simp add: prev_slide_def)
next
  case False
  then show ?thesis using assms by (simp add: prev_slide_def)
qed

lemma reachable_inv: "reachable s \<Longrightarrow> session_inv s"
proof (induction rule: reachable.induct)
  case (r_init tech hr num_tech num_hr rnd_t rnd_h s)
  then show ?case using new_app_inv by blast
next
  case (r_type s t)
  then show ?case by (simp add: type_answer_inv)
next
  case (r_eval s s')
  then show ?case using evaluate_current_inv [of s] by auto
next
  case (r_next s s')
  then show ?case using next_slide_inv [of s] by auto
next
  case (r_prev s s')
  then show ?case using prev_slide_inv [of s] by auto
qed

subsection \<open>The demonstration session, run\<close>

lemma demo_start_run: "new_app demo_tech demo_hr 1 1 first_draw first_draw = Inr demo_start"
  by code_simp

lemma demo_second_run: "next_slide (type_answer ''Lists are Mutable'' demo_start) = Inr demo_second"
  by code_simp

lemma demo_summary_run: "next_slide demo_second = Inr demo_summary"
  by code_simp

lemma demo_evaluated_run: "evaluate_current demo_second = Inr demo_evaluated"
  by code_simp

lemma demo_back_run: "prev_slide demo_summary = Inr demo_back"
  by code_simp

lemma demo_start_reachable: "reachable demo_start"
  using demo_start_run by (rule r_init)

lemma demo_second_reachable: "reachable demo_second"
  using r_type [OF demo_start_reachable] demo_second_run by (rule r_next)

lemma demo_summary_reachable: "reachable demo_summary"
  using demo_second_reachable demo_summary_run by (rule r_next)

lemma show_slide_questions: "show_slide idx s = Inr s' \<Longrightarrow> questions s' = questions s"
  by (auto simp: show_slide_def split: sum.splits)

lemma evaluate_current_questions: "evaluate_current s = Inr s' \<Longrightarrow> questions s' = questions s"
  by (auto simp: evaluate_current_def Let_def split: if_splits prod.splits)

lemma show_summary_questions: "show_summary s = Inr s' \<Longrightarrow> questions s' = questions s"
  by (auto simp: show_summary_def split: sum.splits dest: show_slide_questions)

lemma next_slide_questions:
  assumes "next_slide s = Inr s'" shows "questions s' = questions s"
proof -
  from assms obtain s1 where e: "evaluate_current s = Inr s1"
    and r: "show_slide (current_idx s1 + 1) s1 = Inr s' \<or> show_summary s1 = Inr s'"
    by (auto simp: next_slide_def split: sum.splits if_splits)
  from r have "questions s' = questions s1"
    using show_slide_questions show_summary_questions by blast
  then show ?thesis using evaluate_current_questions [OF e] by simp
qed

lemma prev_slide_questions: "prev_slide s = Inr s' \<Longrightarrow> questions s' = questions s"
  by (auto simp: prev_slide_def split: if_splits dest: show_slide_questions)

lemma type_answer_questions: "questions (type_answer t s) = questions s"
  by (simp add: type_answer_def)

lemma prepare_questions_round_robin:
  "prepare_questions tech hr nt nh rt rh = Inr qs \<Longrightarrow>
   \<exists>ts hs. sample_category tech nt rt = Inr ts \<and> sample_category hr nh rh = Inr hs \<and>
           qs = round_robin ts hs"
  by (auto simp: prepare_questions_def interleave_round_robin split: sum.splits)

lemma new_app_questions:
  "new_app tech hr nt nh rt rh = Inr s0 \<Longrightarrow>
   prepare_questions tech hr nt nh rt rh = Inr (questions s0)"
  by (auto simp: new_app_def split: sum.splits dest: init_app_inv)

subsection \<open>The session's question list\<close>

text \<open>
  Claim C3. The question list of a session is the round-robin interleaving of the
  technical sample and the HR sample: on each round the technical question first, then
  the HR question, and once one sample is exhausted the rest of the other. The list is
  fixed for the session: typing, evaluating and navigating never change it.
\<close>

theorem session_list_round_robin:
  "interleave tech_sample hr_sample = round_robin tech_sample hr_sample \<and>
   (prepare_questions tech hr nt nh rt rh = Inr qs \<longrightarrow>
      (\<exists>ts hs. sample_category tech nt rt = Inr ts \<and> sample_category hr nh rh = Inr hs \<and>
               qs = round_robin ts hs)) \<and>
   (new_app tech hr nt nh rt rh = Inr s0 \<longrightarrow>
      prepare_questions tech hr nt nh rt rh = Inr (questions s0)) \<and>
   questions (type_answer t s) = questions s \<and>
   (evaluate_current s = Inr s1 \<longrightarrow> questions s1 = questions s) \<and>
   (next_slide s = Inr s2 \<longrightarrow> questions s2 = questions s) \<and>
   (prev_slide s = Inr s3 \<longrightarrow> questions s3 = questions s)"
  using prepare_questions_round_robin [of tech hr nt nh rt rh qs]
    new_app_questions [of tech hr nt nh rt rh s0]
    evaluate_current_questions [of s s1] next_slide_questions [of s s2]
    prev_slide_questions [of s s3]
  by (simp add: interleave_round_robin type_answer_questions)

theorem session_list_round_robin_witness:
  "prepare_questions demo_tech demo_hr 1 1 first_draw first_draw = Inr (questions demo_start) \<and>
   questions demo_start = round_robin demo_tech demo_hr \<and>
   questions demo_evaluated = questions demo_second \<and>
   questions demo_summary = questions demo_second \<and>
   questions demo_back = questions demo_summary"
proof -
  have p: "prepare_questions demo_tech demo_hr 1 1 first_draw first_draw = Inr (questions demo_start)"
    by code_simp
  have st: "sample_category demo_tech 1 first_draw = Inr demo_tech"
    and sh: "sample_category demo_hr 1 first_draw = Inr demo_hr"
    by code_simp+
  have a: "questions demo_start = round_robin demo_tech demo_hr"
    using session_list_round_robin [where tech = demo_tech and hr = demo_hr and nt = 1 and nh = 1
        and rt = first_draw and rh = first_draw and qs = "questions demo_start"] p st sh
    by simp
  have b: "questions demo_evaluated = questions demo_second \<and>
           questions demo_summary = questions demo_second"
    using session_list_round_robin [where s = demo_second and ?s1.0 = demo_evaluated
        and ?s2.0 = demo_summary] demo_evaluated_run demo_summary_run
    by simp
  have c: "questions demo_back = questions demo_summary"
    using session_list_round_robin [where s = demo_summary and ?s3.0 = demo_back] demo_back_run
    by simp
  show ?thesis using p a b c by simp
qed

subsection \<open>Calls in a state that does not support them\<close>

text \<open>
  Claim C10 as stated fails: in the summary state \<^verbatim>\<open>evaluate_current\<close> returns normally,
  with the state as it was; no failure is reported to the caller.
\<close>

theorem evaluate_current_in_summary_silent:
  "current_idx demo_summary = length (slides demo_summary) \<and>
   evaluate_current demo_summary = Inr demo_summary"
  by code_simp

text \<open>
  Claim C10, amended. An operation attempted in a state that does not support it
  returns normally, reporting no failure, and leaves the whole session state unchanged:
  \<^verbatim>\<open>evaluate_current\<close> (and typing) in the summary state, \<^verbatim>\<open>prev_slide\<close> at the first
  question.
\<close>

theorem invalid_state_calls_silent:
  "(length (slides s) \<le> current_idx s \<longrightarrow> evaluate_current s = Inr s \<and> type_answer t s = s) \<and>
   (current_idx s0 = 0 \<longrightarrow> prev_slide s0 = Inr s0)"
  by (simp add: evaluate_current_def prev_slide_def type_answer_def)

theorem invalid_state_calls_silent_witness:
  "length (slides demo_summary) \<le> current_idx demo_summary \<and>
   evaluate_current demo_summary = Inr demo_summary \<and>
   type_answer ''late'' demo_summary = demo_summary \<and>
   current_idx demo_start = 0 \<and> prev_slide demo_start = Inr demo_start"
proof -
  have a: "length (slides demo_summary) \<le> current_idx demo_summary" by code_simp
  have b: "current_idx demo_start = 0" by code_simp
  show ?thesis
    using invalid_state_calls_silent [of demo_summary "''late''" demo_start] a b by simp
qed

subsection \<open>The summary report\<close>

text \<open>
  Claim C4. In every reachable session state the report is computed without failure;
  its total possible score is the sum of the keyword counts of all questions, its total
  score is the sum of all stored scores, its per-section entries stand in the order in
  which the sections first occur in the question list, each entry holds the sums of its
  section, and the two totals equal the sums of the per-section scores and possibles.
\<close>

theorem build_report_totals:
  assumes "reachable s"
  shows "\<exists>r. build_report s = Inr r \<and>
     total_keywords r = sum_list (map (\<lambda>qq. length (keywords (snd qq))) (questions s)) \<and>
     total_score r = sum_list (scores s) \<and>
     map fst (section_wise r) = first_seen (map fst (questions s)) \<and>
     (\<forall>c \<in> set (map fst (questions s)).
        map_of (section_wise r) c = Some (section_tally c (questions s) (scores s))) \<and>
     total_score r = sum_list (map (\<lambda>p. score (snd p)) (section_wise r)) \<and>
     total_keywords r = sum_list (map (\<lambda>p. possible (snd p)) (section_wise r))"
proof -
  have inv: "session_inv s" using assms by (rule reachable_inv)
  then have len: "length (scores s) = length (questions s)" by (simp add: session_inv_def)
  obtain sw ds where sw: "section_loop 0 (questions s) (scores s) [] = Inr sw"
    and r: "build_report s = Inr \<lparr>total_score = sum_list (scores s),
             total_keywords = sum_list (map (\<lambda>qq. length (keywords (snd qq))) (questions s)),
             section_wise = sw, details = ds\<rparr>"
    using build_report_ok [OF inv] by blast
  have keys: "map fst sw = first_seen (map fst (questions s))"
    using section_loop_keys [OF sw] by simp
  have tallies: "map_of sw c = Some (section_tally c (questions s) (scores s))"
    if "c \<in> set (map fst (questions s))" for c
    using section_loop_map_of [OF sw, of c] that by simp
  have sums: "sum_list (map (\<lambda>p. score (snd p)) sw) = sum_list (scores s)"
    "sum_list (map (\<lambda>p. possible (snd p)) sw) =
       sum_list (map (\<lambda>qq. length (keywords (snd qq))) (questions s))"
    using section_loop_sums [OF sw] len by simp_all
  show ?thesis
    using r keys tallies sums by simp
qed

theorem build_report_totals_witness:
  "reachable demo_second \<and>
   (\<exists>r. build_report demo_second = Inr r \<and> total_score r = 1 \<and> total_keywords r = 5 \<and>
        map fst (section_wise r) = [''Technical'', ''HR''] \<and>
        sum_list (map (\<lambda>p. score (snd p)) (section_wise r)) = 1 \<and>
        sum_list (map (\<lambda>p. possible (snd p)) (section_wise r)) = 5)"
proof -
  have a: "sum_list (scores demo_second) = 1" by code_simp
  have b: "sum_list (map (\<lambda>qq. length (keywords (snd qq))) (questions demo_second)) = 5"
    by code_simp
  have c: "first_seen (map fst (questions demo_second)) = [''Technical'', ''HR'']"
    by code_simp
  obtain r where r: "build_report demo_second = Inr r"
     "total_keywords r = sum_list (map (\<lambda>qq. length (keywords (snd qq))) (questions demo_second))"
     "total_score r = sum_list (scores demo_second)"
     "map fst (section_wise r) = first_seen (map fst (questions demo_second))"
     "total_score r = sum_list (map (\<lambda>p. score (snd p)) (section_wise r))"
     "total_keywords r = sum_list (map (\<lambda>p. possible (snd p)) (section_wise r))"
    using build_report_totals [OF demo_second_reachable] by blast
  show ?thesis
    using demo_second_reachable r a b c by (intro conjI exI [of _ r]) simp_all
qed

text \<open>The third example of the specification's test list.\<close>

lemma build_report_example:
  "build_report demo_summary =
     Inr \<lparr>total_score = 1, total_keywords = 5,
          section_wise = [(''Technical'', \<lparr>score = 1, possible = 2\<rparr>),
                          (''HR'', \<lparr>score = 0, possible = 3\<rparr>)],
          details = [(''Technical'', ''T1'', ''Lists are Mutable'', 1, 2),
                     (''HR'', ''H1'', ''(No answer)'', 0, 3)]\<rparr>"
  by code_simp

subsection \<open>The summary state\<close>

text \<open>
  Claim C5 as stated fails: from the summary state of the demonstration session
  \<^verbatim>\<open>prev_slide\<close> returns to the last question.
\<close>

theorem prev_slide_leaves_summary:
  "reachable demo_summary \<and>
   current_idx demo_summary = length (questions demo_summary) \<and>
   prev_slide demo_summary = Inr demo_back \<and>
   current_idx demo_back = length (questions demo_summary) - 1"
proof -
  have "current_idx demo_summary = length (questions demo_summary)" by code_simp
  moreover have "current_idx demo_back = length (questions demo_summary) - 1" by code_simp
  ultimately show ?thesis using demo_summary_reachable demo_back_run by simp
qed

text \<open>
  Claim C5, amended. In the summary state (\<open>current_idx = N\<close>) of a reachable session,
  evaluating and typing change nothing, \<^verbatim>\<open>next_slide\<close> stays in the summary state and
  the Next button is disabled; the Previous button is enabled, and \<^verbatim>\<open>prev_slide\<close> moves
  to question \<open>N - 1\<close>.
\<close>

theorem summary_left_only_backwards:
  assumes "reachable s" "current_idx s = length (questions s)"
  shows "evaluate_current s = Inr s \<and> type_answer t s = s \<and>
         (\<exists>s'. next_slide s = Inr s' \<and> questions s' = questions s \<and>
               current_idx s' = length (questions s')) \<and>
         \<not> btn_next_enabled s \<and> btn_prev_enabled s \<and>
         (\<exists>s'. prev_slide s = Inr s' \<and> questions s' = questions s \<and>
               current_idx s' = length (questions s) - 1 \<and>
               current_idx s' < length (questions s'))"
proof -
  have inv: "session_inv s" using assms(1) by (rule reachable_inv)
  then have len: "length (slides s) = length (questions s)" and pos: "0 < length (questions s)"
    and bp: "btn_prev_enabled s = (0 < current_idx s)"
    and bn: "btn_next_enabled s = (current_idx s < length (slides s))"
    by (simp_all add: session_inv_def)
  have e: "evaluate_current s = Inr s"
    using assms(2) len by (simp add: evaluate_current_summary)
  have ty: "type_answer t s = s" using assms(2) len by (simp add: type_answer_def)
  obtain s' where n: "next_slide s = Inr s'" "questions s' = questions s"
      "current_idx s' = min (current_idx s + 1) (length (questions s))"
    using next_slide_inv [OF inv] by blast
  obtain s'' where p: "prev_slide s = Inr s''" "questions s'' = questions s"
      "current_idx s'' = current_idx s - 1"
    using prev_slide_inv [OF inv] by blast
  show ?thesis
    using e ty n p assms(2) len pos bp bn by simp
qed

theorem summary_left_only_backwards_witness:
  "reachable demo_summary \<and> current_idx demo_summary = length (questions demo_summary) \<and>
   evaluate_current demo_summary = Inr demo_summary \<and>
   btn_prev_enabled demo_summary \<and> \<not> btn_next_enabled demo_summary \<and>
   (\<exists>s'. prev_slide demo_summary = Inr s' \<and> current_idx s' = 1)"
proof -
  have a: "current_idx demo_summary = length (questions demo_summary)" by code_simp
  have b: "length (questions demo_summary) = 2" by code_simp
  show ?thesis
    using summary_left_only_backwards [OF demo_summary_reachable a, of "[]"]
      demo_summary_reachable a b by auto
qed

subsection \<open>Submitting an answer\<close>





subsection \<open>Navigation\<close>

lemma session_inv_in_bounds: "session_inv s \<Longrightarrow> in_bounds s"
  by (simp add: session_inv_def in_bounds_def)

lemma new_app_defaults:
  assumes "new_app tech hr nt nh rt rh = Inr s"
  shows "answers s = replicate (length (questions s)) [] \<and>
         scores s = replicate (length (questions s)) 0"
proof -
  from assms obtain qs where i: "init_app qs = Inr s"
    by (auto simp: new_app_def split: sum.splits)
  then have q: "questions s = qs" using init_app_inv by blast
  from i show ?thesis unfolding q
    by (auto simp: init_app_def show_slide_def split: sum.splits)
qed

lemma next_times_inv:
  "session_inv s \<Longrightarrow> current_idx s + k \<le> length (questions s) \<Longrightarrow>
   \<exists>s'. next_times k s = Inr s' \<and> session_inv s' \<and> current_idx s' = current_idx s + k \<and>
        questions s' = questions s \<and> length (slides s') = length (slides s)"
proof (induction k arbitrary: s)
  case 0
  then show ?case by simp
next
  case (Suc k)
  obtain s1 where n: "next_slide s = Inr s1" and i1: "session_inv s1"
    and q1: "questions s1 = questions s" and l1: "length (slides s1) = length (slides s)"
    and c1: "current_idx s1 = min (current_idx s + 1) (length (questions s))"
    using next_slide_inv [OF Suc.prems(1)] by blast
  have c1': "current_idx s1 = current_idx s + 1" using c1 Suc.prems(2) by simp
  have b: "current_idx s1 + k \<le> length (questions s1)" using c1' q1 Suc.prems(2) by simp
  obtain s' where "next_times k s1 = Inr s'" "session_inv s'" "current_idx s' = current_idx s1 + k"
     "questions s' = questions s1" "length (slides s') = length (slides s1)"
    using Suc.IH [OF i1 b] by blast
  then show ?case using n q1 l1 c1' by simp
qed

text \<open>
  Claim C8. In every reachable session state the index lies in \<open>[0, N]\<close> and there is
  one answer and one score per question, and every operation returns a state of which
  the same holds, over the same question list: typing, evaluating, \<^verbatim>\<open>next_slide\<close>, which
  advances by one below \<open>N\<close>, reaches the summary state from question \<open>N - 1\<close> and never
  goes beyond \<open>N\<close>, and \<^verbatim>\<open>prev_slide\<close>, which steps back by one and at the first question
  changes nothing. A new session starts at index \<open>0\<close> with empty answers and zero scores.
\<close>

theorem navigation_within_bounds:
  assumes "reachable s"
  shows "in_bounds s \<and> in_bounds (type_answer t s) \<and>
    (\<exists>s'. evaluate_current s = Inr s' \<and> in_bounds s' \<and> questions s' = questions s \<and>
          current_idx s' = current_idx s) \<and>
    (\<exists>s'. next_slide s = Inr s' \<and> in_bounds s' \<and> questions s' = questions s \<and>
          (current_idx s < length (questions s) \<longrightarrow> current_idx s' = current_idx s + 1) \<and>
          (current_idx s + 1 = length (questions s) \<longrightarrow> current_idx s' = length (questions s)) \<and>
          (current_idx s = length (questions s) \<longrightarrow> current_idx s' = length (questions s))) \<and>
    (\<exists>s'. prev_slide s = Inr s' \<and> in_bounds s' \<and> questions s' = questions s \<and>
          (current_idx s = 0 \<longrightarrow> s' = s) \<and>
          (0 < current_idx s \<longrightarrow> current_idx s' = current_idx s - 1)) \<and>
    (new_app tech hr nt nh rt rh = Inr s \<longrightarrow>
       current_idx s = 0 \<and> answers s = replicate (length (questions s)) [] \<and>
       scores s = replicate (length (questions s)) 0)"
proof -
  have inv: "session_inv s" using assms by (rule reachable_inv)
  have b0: "in_bounds s" using inv by (rule session_inv_in_bounds)
  have b1: "in_bounds (type_answer t s)"
    using type_answer_inv [OF inv] by (rule session_inv_in_bounds)
  have le: "current_idx s \<le> length (questions s)" using b0 by (simp add: in_bounds_def)
  obtain e where e: "evaluate_current s = Inr e" "session_inv e" "current_idx e = current_idx s"
      "questions e = questions s"
    using evaluate_current_inv [OF inv] by blast
  obtain n where n: "next_slide s = Inr n" "session_inv n" "questions n = questions s"
      "current_idx n = min (current_idx s + 1) (length (questions s))"
    using next_slide_inv [OF inv] by blast
  from prev_slide_inv [OF inv]
  obtain p where p: "prev_slide s = Inr p" "session_inv p" "questions p = questions s"
      "current_idx p = current_idx s - 1" "current_idx s = 0 \<longrightarrow> p = s"
    by (elim exE conjE)
  have E: "\<exists>s'. evaluate_current s = Inr s' \<and> in_bounds s' \<and> questions s' = questions s \<and>
          current_idx s' = current_idx s"
    by (intro exI [of _ e] conjI e(1) session_inv_in_bounds [OF e(2)] e(4) e(3))
  have N: "\<exists>s'. next_slide s = Inr s' \<and> in_bounds s' \<and> questions s' = questions s \<and>
          (current_idx s < length (questions s) \<longrightarrow> current_idx s' = current_idx s + 1) \<and>
          (current_idx s + 1 = length (questions s) \<longrightarrow> current_idx s' = length (questions s)) \<and>
          (current_idx s = length (questions s) \<longrightarrow> current_idx s' = length (questions s))"
  proof (intro exI [of _ n] conjI impI)
    show "next_slide s = Inr n" by (rule n(1))
    show "in_bounds n" using n(2) by (rule session_inv_in_bounds)
    show "questions n = questions s" by (rule n(3))
    show "current_idx n = current_idx s + 1" if "current_idx s < length (questions s)"
      using n(4) that by simp
    show "current_idx n = length (questions s)" if "current_idx s + 1 = length (questions s)"
      using n(4) that by simp
    show "current_idx n = length (questions s)" if "current_idx s = length (questions s)"
      using n(4) that by simp
  qed
  have P: "\<exists>s'. prev_slide s = Inr s' \<and> in_bounds s' \<and> questions s' = questions s \<and>
          (current_idx s = 0 \<longrightarrow> s' = s) \<and>
          (0 < current_idx s \<longrightarrow> current_idx s' = current_idx s - 1)"
  proof (intro exI [of _ p] conjI impI)
    show "prev_slide s = Inr p" by (rule p(1))
    show "in_bounds p" using p(2) by (rule session_inv_in_bounds)
    show "questions p = questions s" by (rule p(3))
    show "p = s" if "current_idx s = 0" using p(5) that by simp
    show "current_idx p = current_idx s - 1" if "0 < current_idx s" by (rule p(4))
  qed
  have I: "new_app tech hr nt nh rt rh = Inr s \<longrightarrow>
       current_idx s = 0 \<and> answers s = replicate (length (questions s)) [] \<and>
       scores s = replicate (length (questions s)) 0"
  proof (intro impI)
    assume a: "new_app tech hr nt nh rt rh = Inr s"
    show "current_idx s = 0 \<and> answers s = replicate (length (questions s)) [] \<and>
       scores s = replicate (length (questions s)) 0"
      using new_app_inv [OF a] new_app_defaults [OF a] by simp
  qed
  show ?thesis by (intro conjI b0 b1 E N P I)
qed

theorem navigation_within_bounds_witness:
  "reachable demo_start \<and> reachable demo_second \<and>
   new_app demo_tech demo_hr 1 1 first_draw first_draw = Inr demo_start \<and>
   current_idx demo_start = 0 \<and> prev_slide demo_start = Inr demo_start \<and>
   answers demo_start = [[], []] \<and> scores demo_start = [0, 0] \<and>
   current_idx demo_second + 1 = length (questions demo_second) \<and>
   in_bounds demo_second \<and>
   (\<exists>s'. next_slide demo_second = Inr s' \<and> in_bounds s' \<and>
         current_idx s' = length (questions demo_second))"
proof -
  have l: "length (questions demo_start) = 2" by code_simp
  have c: "current_idx demo_second + 1 = length (questions demo_second)" by code_simp
  note t0 = navigation_within_bounds [OF demo_start_reachable, where t = "[]" and tech = demo_tech
        and hr = demo_hr and nt = 1 and nh = 1 and rt = first_draw and rh = first_draw]
  from t0 demo_start_run have i: "current_idx demo_start = 0"
    "answers demo_start = replicate (length (questions demo_start)) []"
    "scores demo_start = replicate (length (questions demo_start)) 0"
    by simp_all
  from t0 obtain p0 where p0: "prev_slide demo_start = Inr p0"
      "current_idx demo_start = 0 \<longrightarrow> p0 = demo_start"
    by (elim exE conjE)
  from p0 i(1) have p: "prev_slide demo_start = Inr demo_start" by simp
  have r: "answers demo_start = [[], []]" "scores demo_start = [0, 0]"
    using i(2,3) l by (simp_all add: numeral_2_eq_2)
  note t1 = navigation_within_bounds [OF demo_second_reachable, where t = "[]" and tech = demo_tech
        and hr = demo_hr and nt = 1 and nh = 1 and rt = first_draw and rh = first_draw]
  from t1 have b: "in_bounds demo_second" by (elim conjE)
  from t1 obtain s' where n: "next_slide demo_second = Inr s'" "in_bounds s'"
     "current_idx demo_second + 1 = length (questions demo_second) \<longrightarrow>
        current_idx s' = length (questions demo_second)"
    by (elim exE conjE)
  have N: "\<exists>s'. next_slide demo_second = Inr s' \<and> in_bounds s' \<and>
         current_idx s' = length (questions demo_second)"
    using n c by blast
  show ?thesis
    by (intro conjI demo_start_reachable demo_second_reachable demo_start_run i(1) p r c b N)
qed

subsection \<open>Progress\<close>

text \<open>The float quotient and percentage of the second of three slides, as Python computes them.\<close>

lemma int_truediv_one_third:
  "int_truediv 1 3 = Inr (6004799503160661 / 18014398509481984)"
  by code_simp

lemma float_mul_one_third:
  "float_mul (6004799503160661 / 18014398509481984) 100
     = Finite (2345624805922133 / 70368744177664)"
  by code_simp

lemma demo3_start_run: "new_app demo_tech3 demo_hr 2 1 first_draw first_draw = Inr demo3_start"
  by code_simp

lemma demo3_start_reachable: "reachable demo3_start"
  using demo3_start_run by (rule r_init)

lemma progress_quotient_bounds:
  assumes "0 < n" "a \<le> b" "b \<le> n"
  shows "int_truediv a n = Inr (round_double (of_nat a / of_nat n)) \<and>
         int_truediv b n = Inr (round_double (of_nat b / of_nat n)) \<and>
         0 \<le> round_double (of_nat a / of_nat n) \<and>
         round_double (of_nat a / of_nat n) \<le> round_double (of_nat b / of_nat n) \<and>
         round_double (of_nat b / of_nat n) \<le> 1"
proof -
  have n: "(0::rat) < of_nat n" using assms(1) by simp
  have an: "a \<le> n" using assms(2,3) by simp
  have "(of_nat a :: rat) \<le> of_nat b" using assms(2) by simp
  then have "(of_nat a :: rat) / of_nat n \<le> of_nat b / of_nat n"
    using n by (simp add: divide_right_mono)
  moreover have "(0::rat) \<le> of_nat a / of_nat n" by simp
  ultimately have m: "round_double (of_nat a / of_nat n) \<le> round_double (of_nat b / of_nat n)"
    by (intro round_double_mono)
  show ?thesis
    using int_truediv_ok [OF assms(1) an] int_truediv_ok [OF assms(1) assms(3)] m by simp
qed

lemma progress_quotient_ends:
  assumes "0 < n"
  shows "round_double (of_nat n / of_nat n) = 1 \<and> round_double (of_nat 0 / of_nat n) = 0"
  using assms by (simp add: round_double_0 round_double_1)

text \<open>
  Claim C9. The progress quotient of \<^verbatim>\<open>_show_slide\<close> is the Python float
  \<^verbatim>\<open>idx / len(self.slides)\<close>: the exact quotient \<open>current_idx / N\<close> rounded to the nearest
  binary64 number. In every reachable state this division raises nothing, its value
  lies in \<open>[0, 1]\<close>, and the progress variable holds the float product of it and \<open>100\<close>;
  in the summary state the quotient is exactly \<open>1\<close> (and the variable \<open>100\<close>); a new
  session starts at exactly \<open>0\<close>; and after any number of \<^verbatim>\<open>next_slide\<close> calls that
  stays within the list, the quotient is at least what it was before and at most \<open>1\<close>.
\<close>

theorem progress_quotient_monotone:
  assumes "reachable s" "current_idx s + k \<le> length (questions s)"
  shows "\<exists>quot. length (slides s) = length (questions s) \<and>
     int_truediv (current_idx s) (length (slides s)) = Inr quot \<and>
     quot = round_double (of_nat (current_idx s) / of_nat (length (slides s))) \<and>
     progress_var s = float_mul quot 100 \<and>
     0 \<le> quot \<and> quot \<le> 1 \<and>
     (current_idx s = length (slides s) \<longrightarrow> quot = 1 \<and> progress_var s = Finite 100) \<and>
     (new_app tech hr nt nh rt rh = Inr s \<longrightarrow>
        current_idx s = 0 \<and> quot = 0 \<and> progress_var s = Finite 0) \<and>
     (\<exists>s' quot'. next_times k s = Inr s' \<and> current_idx s' = current_idx s + k \<and>
           length (slides s') = length (slides s) \<and>
           int_truediv (current_idx s') (length (slides s')) = Inr quot' \<and>
           progress_var s' = float_mul quot' 100 \<and>
           quot \<le> quot' \<and> quot' \<le> 1)"
proof -
  let ?n = "length (slides s)"
  let ?q = "round_double (of_nat (current_idx s) / of_nat ?n)"
  let ?q' = "round_double (of_nat (current_idx s + k) / of_nat ?n)"
  have inv: "session_inv s" using assms(1) by (rule reachable_inv)
  then have len: "?n = length (questions s)" and pos: "0 < ?n"
    and pv: "progress_var s = float_mul ?q 100"
    by (simp_all add: session_inv_def)
  from next_times_inv [OF inv assms(2)]
  obtain s' where st: "next_times k s = Inr s'" "session_inv s'"
     "current_idx s' = current_idx s + k" "length (slides s') = ?n"
    by (elim exE conjE)
  have pv': "progress_var s' = float_mul ?q' 100"
    using st(2) by (simp add: session_inv_def st(3) st(4))
  have le': "current_idx s + k \<le> ?n" using assms(2) len by simp
  have le0: "current_idx s \<le> current_idx s + k" by simp
  note B = progress_quotient_bounds [OF pos le0 le']
  have D: "int_truediv (current_idx s) ?n = Inr ?q" using B by (elim conjE)
  have D': "int_truediv (current_idx s + k) ?n = Inr ?q'" using B by (elim conjE)
  have B0: "0 \<le> ?q" using B by (elim conjE)
  have M: "?q \<le> ?q'" using B by (elim conjE)
  have B1': "?q' \<le> 1" using B by (elim conjE)
  have B1: "?q \<le> 1" using M B1' by linarith
  note E = progress_quotient_ends [OF pos]
  have S: "current_idx s = ?n \<longrightarrow> ?q = 1 \<and> progress_var s = Finite 100"
  proof (intro impI)
    assume a: "current_idx s = ?n"
    have q1: "?q = 1" using E by (simp add: a)
    show "?q = 1 \<and> progress_var s = Finite 100"
      using q1 pv by (simp add: float_mul_1_100)
  qed
  have I: "new_app tech hr nt nh rt rh = Inr s \<longrightarrow>
        current_idx s = 0 \<and> ?q = 0 \<and> progress_var s = Finite 0"
  proof (intro impI)
    assume a: "new_app tech hr nt nh rt rh = Inr s"
    have c0: "current_idx s = 0" and p0: "progress_var s = Finite 0"
      using new_app_inv [OF a] by simp_all
    have q0: "?q = 0" using E by (simp add: c0)
    show "current_idx s = 0 \<and> ?q = 0 \<and> progress_var s = Finite 0"
      using c0 q0 p0 by simp
  qed
  have X: "\<exists>s' quot'. next_times k s = Inr s' \<and> current_idx s' = current_idx s + k \<and>
           length (slides s') = length (slides s) \<and>
           int_truediv (current_idx s') (length (slides s')) = Inr quot' \<and>
           progress_var s' = float_mul quot' 100 \<and>
           ?q \<le> quot' \<and> quot' \<le> 1"
    using st(1,3,4) D' pv' M B1' by (intro exI [of _ s'] exI [of _ ?q']) simp
  show ?thesis
    by (intro exI [of _ ?q] conjI len D refl pv B0 B1 S I X)
qed

theorem progress_quotient_monotone_witness:
  "reachable demo3_start \<and> current_idx demo3_start + 1 \<le> length (questions demo3_start) \<and>
   new_app demo_tech3 demo_hr 2 1 first_draw first_draw = Inr demo3_start \<and>
   progress_var demo3_start = Finite 0 \<and>
   (\<exists>s'. next_times 1 demo3_start = Inr s' \<and> current_idx s' = 1 \<and>
         int_truediv (current_idx s') (length (slides s'))
           = Inr (6004799503160661 / 18014398509481984) \<and>
         progress_var s' = Finite (2345624805922133 / 70368744177664))"
proof -
  have a: "current_idx demo3_start + 1 \<le> length (questions demo3_start)" by code_simp
  have c: "current_idx demo3_start = 0" by code_simp
  have l: "length (slides demo3_start) = 3" by code_simp
  note t = progress_quotient_monotone [OF demo3_start_reachable a, where tech = demo_tech3
        and hr = demo_hr and nt = 2 and nh = 1 and rt = first_draw and rh = first_draw]
  from t obtain quot where tc: "length (slides demo3_start) = length (questions demo3_start) \<and>
     int_truediv (current_idx demo3_start) (length (slides demo3_start)) = Inr quot \<and>
     quot = round_double (of_nat (current_idx demo3_start) / of_nat (length (slides demo3_start))) \<and>
     progress_var demo3_start = float_mul quot 100 \<and>
     0 \<le> quot \<and> quot \<le> 1 \<and>
     (current_idx demo3_start = length (slides demo3_start) \<longrightarrow>
        quot = 1 \<and> progress_var demo3_start = Finite 100) \<and>
     (new_app demo_tech3 demo_hr 2 1 first_draw first_draw = Inr demo3_start \<longrightarrow>
        current_idx demo3_start = 0 \<and> quot = 0 \<and> progress_var demo3_start = Finite 0) \<and>
     (\<exists>s' quot'. next_times 1 demo3_start = Inr s' \<and>
           current_idx s' = current_idx demo3_start + 1 \<and>
           length (slides s') = length (slides demo3_start) \<and>
           int_truediv (current_idx s') (length (slides s')) = Inr quot' \<and>
           progress_var s' = float_mul quot' 100 \<and>
           quot \<le> quot' \<and> quot' \<le> 1)" ..
  from tc have i: "new_app demo_tech3 demo_hr 2 1 first_draw first_draw = Inr demo3_start \<longrightarrow>
        current_idx demo3_start = 0 \<and> quot = 0 \<and> progress_var demo3_start = Finite 0"
    by (elim conjE)
  from tc have x: "\<exists>s' quot'. next_times 1 demo3_start = Inr s' \<and>
           current_idx s' = current_idx demo3_start + 1 \<and>
           length (slides s') = length (slides demo3_start) \<and>
           int_truediv (current_idx s') (length (slides s')) = Inr quot' \<and>
           progress_var s' = float_mul quot' 100 \<and>
           quot \<le> quot' \<and> quot' \<le> 1"
    by (elim conjE)
  from x obtain s' quot' where s': "next_times 1 demo3_start = Inr s'"
     "current_idx s' = current_idx demo3_start + 1"
     "length (slides s') = length (slides demo3_start)"
     "int_truediv (current_idx s') (length (slides s')) = Inr quot'"
     "progress_var s' = float_mul quot' 100"
    by (elim exE conjE)
  from i demo3_start_run have "current_idx demo3_start = 0 \<and> quot = 0 \<and>
      progress_var demo3_start = Finite 0"
    by (rule mp)
  then have p0: "progress_var demo3_start = Finite 0" by (elim conjE)
  have i1: "current_idx s' = 1" using s'(2) c by simp
  have "int_truediv 1 3 = Inr quot'" using s'(4) unfolding i1 s'(3) l .
  then have "Inr (6004799503160661 / 18014398509481984) = (Inr quot' :: py_error + rat)"
    unfolding int_truediv_one_third .
  then have "6004799503160661 / 18014398509481984 = quot'" by (rule Inr_inject)
  then have q: "quot' = 6004799503160661 / 18014398509481984" by (rule sym)
  have d: "int_truediv (current_idx s') (length (slides s'))
           = Inr (6004799503160661 / 18014398509481984)"
    unfolding s'(4) q ..
  have v: "progress_var s' = Finite (2345624805922133 / 70368744177664)"
    unfolding s'(5) q by (rule float_mul_one_third)
  have X: "\<exists>s'. next_times 1 demo3_start = Inr s' \<and> current_idx s' = 1 \<and>
         int_truediv (current_idx s') (length (slides s'))
           = Inr (6004799503160661 / 18014398509481984) \<and>
         progress_var s' = Finite (2345624805922133 / 70368744177664)"
    by (intro exI [of _ s'] conjI s'(1) i1 d v)
  show ?thesis
    by (intro conjI demo3_start_reachable a demo3_start_run p0 X)
qed

subsection \<open>The module's own configuration\<close>

text \<open>With the catalogs and counts of the module, every session has five questions.\<close>

lemma round_robin_length: "length (round_robin ts hs) = length ts + length hs"
  by (induction ts hs rule: round_robin.induct) simp_all

lemma default_session_size:
  assumes "new_app TECHNICAL_QUESTIONS HR_QUESTIONS NUM_TECH NUM_HR rnd_t rnd_h = Inr s"
  shows "length (questions s) = 5"
proof -
  from new_app_questions [OF assms] prepare_questions_round_robin
  obtain ts hs where ts: "sample_category TECHNICAL_QUESTIONS NUM_TECH rnd_t = Inr ts"
    and hs: "sample_category HR_QUESTIONS NUM_HR rnd_h = Inr hs"
    and qs: "questions s = round_robin ts hs"
    by blast
  have lt: "length TECHNICAL_QUESTIONS = 3" and lh: "length HR_QUESTIONS = 3"
    by (simp_all add: TECHNICAL_QUESTIONS_def HR_QUESTIONS_def)
  have "ts = sample_pool TECHNICAL_QUESTIONS (min NUM_TECH (length TECHNICAL_QUESTIONS)) rnd_t 0"
    using ts by (simp add: sample_category_ok)
  then have "length ts = 3"
    by (simp add: sample_pool_length lt NUM_TECH_def)
  moreover have "hs = sample_pool HR_QUESTIONS (min NUM_HR (length HR_QUESTIONS)) rnd_h 0"
    using hs by (simp add: sample_category_ok)
  then have "length hs = 2"
    by (simp add: sample_pool_length lh NUM_HR_def)
  ultimately show ?thesis by (simp add: qs round_robin_length)
qed

end
